theory Spec2Isabelle
  imports Main "HOL-Library.Word" "HOL-Library.Multiset"
begin

unbundle bit_operations_syntax

section \<open>Go library functions the program calls\<close>

text \<open>
  The program (\<open>san-resolver.go\<close>) is a Go program. Go strings are byte sequences and are
  modelled as \<open>string\<close> (a list of 8-bit \<open>char\<close>); \<open>net.IP\<close> is a byte slice and is
  modelled as a list of \<open>8 word\<close>. The functions of this section follow the Go standard
  library (packages \<open>strings\<close>, \<open>net\<close>, \<open>net/netip\<close>, \<open>regexp\<close>) as far as the program
  uses them.
\<close>

type_synonym byte = "8 word"

subsection \<open>Characters and numbers\<close>

definition ord :: "char \<Rightarrow> int" where
  "ord c = of_char c"

definition isDigit :: "char \<Rightarrow> bool" where
  "isDigit c = (48 \<le> ord c \<and> ord c \<le> 57)"

definition digitVal :: "char \<Rightarrow> int" where
  "digitVal c = ord c - 48"

definition decVal :: "string \<Rightarrow> int" where
  "decVal s = foldl (\<lambda>a c. a * 10 + digitVal c) 0 s"

definition hexDigit :: "char \<Rightarrow> int option" where
  "hexDigit c =
     (if 48 \<le> ord c \<and> ord c \<le> 57 then Some (ord c - 48)
      else if 97 \<le> ord c \<and> ord c \<le> 102 then Some (ord c - 87)
      else if 65 \<le> ord c \<and> ord c \<le> 70 then Some (ord c - 55)
      else None)"

definition isHex :: "char \<Rightarrow> bool" where
  "isHex c = (hexDigit c \<noteq> None)"

definition hexVal :: "string \<Rightarrow> int" where
  "hexVal s = foldl (\<lambda>a c. a * 16 + (case hexDigit c of Some v \<Rightarrow> v | None \<Rightarrow> 0)) 0 s"

definition digitChar :: "int \<Rightarrow> char" where
  "digitChar n = (if n < 10 then char_of (48 + n) else char_of (87 + n))"

text \<open>Decimal digits of a non-negative number, and lower-case hexadecimal without
  leading zeros (\<open>appendHex\<close> of \<open>net/netip\<close>).\<close>

function itoa :: "int \<Rightarrow> string" where
  "itoa n = (if n < 10 then [digitChar n] else itoa (n div 10) @ [digitChar (n mod 10)])"
  by pat_completeness auto
termination
  by (relation "measure nat") auto

function appendHex :: "int \<Rightarrow> string" where
  "appendHex n = (if n < 16 then [digitChar n] else appendHex (n div 16) @ [digitChar (n mod 16)])"
  by pat_completeness auto
termination
  by (relation "measure nat") auto

declare itoa.simps [simp del]
declare appendHex.simps [simp del]

subsection \<open>Package strings\<close>

text \<open>\<open>strings.Join\<close>, \<open>strings.TrimSuffix\<close> (removes one occurrence of the suffix, if
  present) and \<open>strings.ToUpper\<close> (on ASCII letters; bytes outside \<open>a..z\<close> are kept, which
  is all the provider names of the table need).\<close>

fun Join :: "string list \<Rightarrow> string \<Rightarrow> string" where
  "Join [] sep = []"
| "Join [x] sep = x"
| "Join (x # y # ys) sep = x @ sep @ Join (y # ys) sep"

definition HasSuffix :: "string \<Rightarrow> string \<Rightarrow> bool" where
  "HasSuffix s suffix =
     (length suffix \<le> length s \<and> drop (length s - length suffix) s = suffix)"

definition TrimSuffix :: "string \<Rightarrow> string \<Rightarrow> string" where
  "TrimSuffix s suffix =
     (if HasSuffix s suffix then take (length s - length suffix) s else s)"

definition upperChar :: "char \<Rightarrow> char" where
  "upperChar c = (if 97 \<le> ord c \<and> ord c \<le> 122 then char_of (ord c - 32) else c)"

definition ToUpper :: "string \<Rightarrow> string" where
  "ToUpper s = map upperChar s"

text \<open>\<open>strings.TrimSpace\<close> removes leading and trailing white space as Unicode defines
  it. On the UTF-8 bytes of the string these are the six ASCII characters \<open>\t \n \v \f \r\<close>
  and space, U+0085 and U+00A0 (two bytes each) and the three-byte encodings of U+1680,
  U+2000..U+200A, U+2028, U+2029, U+202F, U+205F and U+3000.\<close>

definition spaceRunes :: "int list list" where
  "spaceRunes =
     [[9], [10], [11], [12], [13], [32], [194, 133], [194, 160], [225, 154, 128]] @
     map (\<lambda>k. [226, 128, 128 + k]) [0, 1, 2, 3, 4, 5, 6, 7, 8, 9, 10] @
     [[226, 128, 168], [226, 128, 169], [226, 128, 175], [226, 129, 159], [227, 128, 128]]"

definition leadingSpace :: "string \<Rightarrow> nat" where
  "leadingSpace s =
     (case filter (\<lambda>r. take (length r) (map ord s) = r) spaceRunes of
        [] \<Rightarrow> 0 | r # _ \<Rightarrow> length r)"

definition trailingSpace :: "string \<Rightarrow> nat" where
  "trailingSpace s =
     (case filter (\<lambda>r. length r \<le> length s \<and> drop (length s - length r) (map ord s) = r)
             spaceRunes of
        [] \<Rightarrow> 0 | r # _ \<Rightarrow> length r)"

function TrimLeft :: "string \<Rightarrow> string" where
  "TrimLeft s = (if leadingSpace s = 0 \<or> s = [] then s else TrimLeft (drop (leadingSpace s) s))"
  by pat_completeness auto
termination
  by (relation "measure length") auto

function TrimRight :: "string \<Rightarrow> string" where
  "TrimRight s =
     (if trailingSpace s = 0 \<or> s = [] then s
      else TrimRight (take (length s - trailingSpace s) s))"
  by pat_completeness auto
termination
  by (relation "measure length") auto

declare TrimLeft.simps [simp del]
declare TrimRight.simps [simp del]

definition TrimSpace :: "string \<Rightarrow> string" where
  "TrimSpace s = TrimRight (TrimLeft s)"

subsection \<open>Package net: addresses\<close>

text \<open>\<open>net.IP\<close> is a byte slice of length 4 (IPv4), 16 (IPv6, or IPv4 in its mapped
  form \<open>::ffff:a.b.c.d\<close>) or 0 (nil). \<open>net.IPAddr\<close> adds the IPv6 zone.\<close>

type_synonym IP = "byte list"
type_synonym IPMask = "byte list"

record IPAddr =
  IP :: IP
  Zone :: string

record IPNet =
  netIP :: IP
  Mask :: IPMask

definition v4InV6Prefix :: "byte list" where
  "v4InV6Prefix = [0, 0, 0, 0, 0, 0, 0, 0, 0, 0, 0xff, 0xff]"

text \<open>\<open>IP.To4\<close>: the 4-byte form of an IPv4 address, \<open>None\<close> (Go: nil) otherwise.\<close>

definition To4 :: "IP \<Rightarrow> IP option" where
  "To4 ip =
     (if length ip = 4 then Some ip
      else if length ip = 16 \<and> take 12 ip = v4InV6Prefix then Some (drop 12 ip)
      else None)"

text \<open>Splitting at a separator byte: the fields between the occurrences.\<close>

fun splitOn :: "char \<Rightarrow> string \<Rightarrow> string list" where
  "splitOn sep [] = [[]]"
| "splitOn sep (c # cs) =
     (if c = sep then [] # splitOn sep cs
      else (case splitOn sep cs of f # fs \<Rightarrow> (c # f) # fs | [] \<Rightarrow> [[c]]))"

text \<open>\<open>netip.parseIPv4Fields\<close>: four decimal fields separated by dots, each with at
  least one digit, no leading zero and a value of at most 255.\<close>

definition ipv4Field :: "string \<Rightarrow> byte option" where
  "ipv4Field f =
     (if f = [] \<or> \<not> list_all isDigit f then None
      else if 1 < length f \<and> hd f = CHR ''0'' then None
      else if 255 < decVal f then None
      else Some (word_of_int (decVal f)))"

definition parseIPv4Fields :: "string \<Rightarrow> byte list option" where
  "parseIPv4Fields s =
     (let fs = map ipv4Field (splitOn (CHR ''.'') s)
      in if length fs = 4 \<and> list_all (\<lambda>f. f \<noteq> None) fs then Some (map the fs) else None)"

text \<open>\<open>netip.parseIPv6\<close>, the loop over the colon-separated groups. The first argument
  counts the groups that still fit (the Go loop runs while fewer than 16 bytes are set);
  \<open>ip\<close> holds the bytes parsed so far and \<open>ellipsis\<close> the byte position of \<open>::\<close>.
  The result is the bytes, the ellipsis and the text left over.\<close>

fun parseIPv6Groups ::
  "nat \<Rightarrow> string \<Rightarrow> byte list \<Rightarrow> nat option \<Rightarrow> (byte list \<times> nat option \<times> string) option" where
  "parseIPv6Groups 0 s ip ellipsis = Some (ip, ellipsis, s)"
| "parseIPv6Groups (Suc k) s ip ellipsis =
     (let h = takeWhile isHex s; rest = dropWhile isHex s
      in if 4 < length h then None
         else if h = [] then None
         else if rest \<noteq> [] \<and> hd rest = CHR ''.'' then
           (if ellipsis = None \<and> length ip \<noteq> 12 then None
            else if 16 < length ip + 4 then None
            else (case parseIPv4Fields s of
                    None \<Rightarrow> None
                  | Some b4 \<Rightarrow> Some (ip @ b4, ellipsis, [])))
         else
           (let ip' = ip @ [word_of_int (hexVal h div 256), word_of_int (hexVal h mod 256)]
            in if rest = [] then Some (ip', ellipsis, [])
               else if hd rest \<noteq> CHR '':'' then None
               else if length rest = 1 then None
               else if hd (tl rest) = CHR '':'' then
                 (if ellipsis \<noteq> None then None
                  else if tl (tl rest) = [] then Some (ip', Some (length ip'), [])
                  else parseIPv6Groups k (tl (tl rest)) ip' (Some (length ip')))
               else parseIPv6Groups k (tl rest) ip' ellipsis))"

text \<open>\<open>netip.Addr\<close> as the parser returns it: four bytes, or sixteen bytes and a zone.\<close>

datatype Addr = Addr4 "byte list" | Addr6 "byte list" string

definition parseIPv6 :: "string \<Rightarrow> Addr option" where
  "parseIPv6 inp =
     (let s = takeWhile (\<lambda>c. c \<noteq> CHR ''%'') inp;
          hasZone = (CHR ''%'' \<in> set inp);
          zone = drop (length s + 1) inp
      in if hasZone \<and> zone = [] then None
         else
           (let lead = (take 2 s = ''::'');
                s0 = (if lead then drop 2 s else s);
                e0 = (if lead then Some 0 else None)
            in if lead \<and> s0 = [] then Some (Addr6 (replicate 16 0) zone)
               else
                 (case parseIPv6Groups 8 s0 [] e0 of
                    None \<Rightarrow> None
                  | Some (ip, ellipsis, rest) \<Rightarrow>
                      if rest \<noteq> [] then None
                      else if length ip < 16 then
                        (case ellipsis of
                           None \<Rightarrow> None
                         | Some e \<Rightarrow>
                             Some (Addr6 (take e ip @ replicate (16 - length ip) 0 @ drop e ip)
                                     zone))
                      else if ellipsis \<noteq> None then None
                      else Some (Addr6 ip zone))))"

text \<open>\<open>netip.ParseAddr\<close>: the first dot, colon or percent sign decides the syntax.\<close>

definition ParseAddr :: "string \<Rightarrow> Addr option" where
  "ParseAddr s =
     (case dropWhile (\<lambda>c. c \<noteq> CHR ''.'' \<and> c \<noteq> CHR '':'' \<and> c \<noteq> CHR ''%'') s of
        [] \<Rightarrow> None
      | c # _ \<Rightarrow>
          if c = CHR ''.'' then map_option Addr4 (parseIPv4Fields s)
          else if c = CHR '':'' then parseIPv6 s
          else None)"

fun AddrZone :: "Addr \<Rightarrow> string" where
  "AddrZone (Addr4 b) = []"
| "AddrZone (Addr6 b z) = z"

fun As16 :: "Addr \<Rightarrow> byte list" where
  "As16 (Addr4 b) = v4InV6Prefix @ b"
| "As16 (Addr6 b z) = b"

fun BitLen :: "Addr \<Rightarrow> nat" where
  "BitLen (Addr4 b) = 32"
| "BitLen (Addr6 b z) = 128"

text \<open>\<open>net.ParseIP\<close>: the 16-byte form of the address, \<open>None\<close> (Go: nil) when the text
  is not an address or carries a zone.\<close>

definition ParseIP :: "string \<Rightarrow> IP option" where
  "ParseIP s =
     (case ParseAddr s of
        None \<Rightarrow> None
      | Some a \<Rightarrow> if AddrZone a \<noteq> [] then None else Some (As16 a))"

text \<open>\<open>IP.String\<close>: \<open><nil>\<close> for the empty slice, \<open>?\<close> and the hexadecimal bytes
  for a slice of a wrong length, dotted decimal for an IPv4 address (also in its mapped
  form), and the IPv6 text form otherwise: lower-case groups, the first longest run of two
  or more zero groups written \<open>::\<close>.\<close>

definition hexString :: "byte list \<Rightarrow> string" where
  "hexString b = concat (map (\<lambda>x. [digitChar (uint x div 16), digitChar (uint x mod 16)]) b)"

definition dotted :: "byte list \<Rightarrow> string" where
  "dotted b = Join (map (\<lambda>x. itoa (uint x)) b) ''.''"

fun groups16 :: "byte list \<Rightarrow> int list" where
  "groups16 (hi # lo # bs) = (uint hi * 256 + uint lo) # groups16 bs"
| "groups16 bs = []"

text \<open>The scan for the zero run of \<open>appendTo6\<close>: position \<open>i\<close> runs over the groups;
  \<open>(zeroStart, zeroEnd)\<close> is the best run so far, \<open>(255, 255)\<close> when there is none.\<close>

fun zeroRun :: "int list \<Rightarrow> nat \<Rightarrow> nat \<Rightarrow> (nat \<times> nat) \<Rightarrow> (nat \<times> nat)" where
  "zeroRun g i 0 best = best"
| "zeroRun g i (Suc k) (zeroStart, zeroEnd) =
     (let j = i + length (takeWhile (\<lambda>x. x = 0) (drop i g))
      in zeroRun g (Suc i) k
           (if 2 \<le> j - i \<and> zeroEnd - zeroStart < j - i then (i, j) else (zeroStart, zeroEnd)))"

definition string6 :: "byte list \<Rightarrow> string" where
  "string6 b =
     (let g = groups16 b; (zeroStart, zeroEnd) = zeroRun g 0 8 (255, 255)
      in if zeroStart = 255 then Join (map appendHex g) '':''
         else Join (map appendHex (take zeroStart g)) '':'' @ ''::'' @
              Join (map appendHex (drop zeroEnd g)) '':'')"

definition IP_String :: "IP \<Rightarrow> string" where
  "IP_String ip =
     (if length ip = 0 then ''<nil>''
      else if length ip \<noteq> 4 \<and> length ip \<noteq> 16 then ''?'' @ hexString ip
      else (case To4 ip of Some p4 \<Rightarrow> dotted p4 | None \<Rightarrow> string6 ip))"

subsection \<open>Package net: networks\<close>

text \<open>\<open>net.CIDRMask ones bits\<close>, for \<open>bits = 8 * l\<close>: \<open>ones\<close> leading one bits.\<close>

fun maskBytes :: "nat \<Rightarrow> nat \<Rightarrow> byte list" where
  "maskBytes 0 n = []"
| "maskBytes (Suc l) n =
     (if 8 \<le> n then 0xff # maskBytes l (n - 8)
      else NOT (drop_bit n (0xff :: byte)) # maskBytes l 0)"

definition CIDRMask :: "nat \<Rightarrow> nat \<Rightarrow> IPMask" where
  "CIDRMask ones bits = maskBytes (bits div 8) ones"

text \<open>\<open>IP.Mask\<close>: a 4-byte mask applies to the last four bytes of a mapped IPv4 address;
  lengths that do not fit give nil (the empty list).\<close>

definition allFF :: "byte list \<Rightarrow> bool" where
  "allFF b = list_all (\<lambda>x. x = 0xff) b"

definition IP_Mask :: "IP \<Rightarrow> IPMask \<Rightarrow> IP" where
  "IP_Mask ip msk =
     (let mask1 = (if length msk = 16 \<and> length ip = 4 \<and> allFF (take 12 msk)
                   then drop 12 msk else msk);
          ip1 = (if length mask1 = 4 \<and> length ip = 16 \<and> take 12 ip = v4InV6Prefix
                 then drop 12 ip else ip)
      in if length ip1 \<noteq> length mask1 then []
         else map (\<lambda>(x, m). x AND m) (zip ip1 mask1))"

text \<open>\<open>dtoi\<close>: the decimal number at the start of a string, the number of digits read and
  whether that worked (at least one digit, value below \<open>0xFFFFFF\<close>).\<close>

definition dtoi :: "string \<Rightarrow> int \<times> nat \<times> bool" where
  "dtoi s =
     (let ds = takeWhile isDigit s
      in if ds = [] then (0, 0, False)
         else if 0xFFFFFF \<le> decVal ds then (0xFFFFFF, length ds, False)
         else (decVal ds, length ds, True))"

text \<open>\<open>net.ParseCIDR\<close>; of its results the program keeps the network only. \<open>None\<close> is
  the parse error.\<close>

definition ParseCIDR :: "string \<Rightarrow> IPNet option" where
  "ParseCIDR s =
     (if CHR ''/'' \<notin> set s then None
      else
        (let addr = takeWhile (\<lambda>c. c \<noteq> CHR ''/'') s;
             msk = drop (length addr + 1) s
         in case ParseAddr addr of
              None \<Rightarrow> None
            | Some ipAddr \<Rightarrow>
                if AddrZone ipAddr \<noteq> [] then None
                else
                  (case dtoi msk of
                     (n, i, ok) \<Rightarrow>
                       if \<not> ok \<or> i \<noteq> length msk \<or> n < 0 \<or> int (BitLen ipAddr) < n then None
                       else
                         (let m = CIDRMask (nat n) (BitLen ipAddr)
                          in Some \<lparr>netIP = IP_Mask (As16 ipAddr) m, Mask = m\<rparr>))))"

text \<open>\<open>networkNumberAndMask\<close> and \<open>IPNet.Contains\<close>. An address is compared in its
  4-byte form when it has one; addresses and networks of different lengths never match.\<close>

definition networkNumberAndMask :: "IPNet \<Rightarrow> (IP \<times> IPMask) option" where
  "networkNumberAndMask n =
     (case (case To4 (netIP n) of
              Some ip4 \<Rightarrow> Some ip4
            | None \<Rightarrow> if length (netIP n) \<noteq> 16 then None else Some (netIP n)) of
        None \<Rightarrow> None
      | Some ip \<Rightarrow>
          if length (Mask n) = 4 then
            (if length ip \<noteq> 4 then None else Some (ip, Mask n))
          else if length (Mask n) = 16 then
            (if length ip = 4 then Some (ip, drop 12 (Mask n)) else Some (ip, Mask n))
          else None)"

definition Contains :: "IPNet \<Rightarrow> IP \<Rightarrow> bool" where
  "Contains n ip =
     (let ip1 = (case To4 ip of Some x \<Rightarrow> x | None \<Rightarrow> ip)
      in case networkNumberAndMask n of
           None \<Rightarrow> length ip1 = 0
         | Some (nn, m) \<Rightarrow>
             length ip1 = length nn \<and>
             list_all (\<lambda>(a, (b, c)). a AND c = b AND c) (zip nn (zip ip1 m)))"

section \<open>The program: data\<close>

text \<open>The structs \<open>DNSRequest\<close> and \<open>DNSResult\<close>. Both have a field \<open>line\<close>; they are
  told apart as \<open>DNSRequest.line\<close> and \<open>DNSResult.line\<close>. A nil slice of resolved
  addresses is the empty list.\<close>

record DNSRequest =
  line :: string
  expectedIP :: string
  domain :: string

record DNSResult =
  line :: string
  shouldPrint :: bool
  status :: string
  resolvedIPs :: "string list"

text \<open>The table \<open>cdnProviders\<close>, a Go map from provider name to CIDR blocks, written as
  the list of its entries in the order of the source text.\<close>

definition cdnProviders :: "(string \<times> string list) list" where
  "cdnProviders =
     [(''cloudflare'',
       [''173.245.48.0/20'', ''103.21.244.0/22'', ''103.22.200.0/22'',
        ''103.31.4.0/22'', ''141.101.64.0/18'', ''108.162.192.0/18'',
        ''190.93.240.0/20'', ''188.114.96.0/20'', ''197.234.240.0/22'',
        ''198.41.128.0/17'', ''162.158.0.0/15'', ''104.16.0.0/13'',
        ''104.24.0.0/14'', ''172.64.0.0/13'', ''131.0.72.0/22'']),
      (''cloudfront'',
       [''52.84.0.0/15'', ''54.230.0.0/16'', ''54.239.128.0/18'',
        ''99.84.0.0/16'', ''205.251.192.0/19'', ''54.239.192.0/19'',
        ''70.132.0.0/18'', ''13.32.0.0/15'', ''13.35.0.0/16'',
        ''204.246.164.0/22'', ''204.246.168.0/22'', ''71.152.0.0/17'']),
      (''aws_global_accelerator'',
       [''75.2.0.0/16'', ''99.77.0.0/16'', ''99.83.0.0/16'',
        ''108.136.0.0/13'', ''130.176.0.0/12'', ''150.222.0.0/16'',
        ''15.177.0.0/18'', ''52.93.0.0/16'', ''54.239.0.0/16'']),
      (''fastly'',
       [''23.235.32.0/20'', ''43.249.72.0/22'', ''103.244.50.0/24'',
        ''103.245.222.0/23'', ''103.245.224.0/24'', ''104.156.80.0/20'',
        ''140.248.64.0/18'', ''140.248.128.0/17'', ''146.75.0.0/16'',
        ''151.101.0.0/16'', ''157.52.64.0/18'', ''167.82.0.0/17'',
        ''167.82.128.0/20'', ''167.82.160.0/20'', ''167.82.224.0/20'',
        ''172.111.64.0/18'', ''185.31.16.0/22'', ''199.27.72.0/21'',
        ''199.232.0.0/16'']),
      (''akamai'',
       [''23.0.0.0/12'', ''2.16.0.0/13'', ''23.192.0.0/11'', ''23.32.0.0/11'',
        ''23.64.0.0/14'', ''23.72.0.0/13'', ''96.16.0.0/15'', ''96.6.0.0/15'',
        ''104.64.0.0/10'', ''184.24.0.0/13'', ''184.50.0.0/15'', ''184.84.0.0/14'',
        ''172.224.0.0/12'', ''172.240.0.0/13''])]"

section \<open>The CDN classifier\<close>

text \<open>
  \<open>detectCDN\<close> walks the addresses in list order and, for each address that parses,
  ranges over the map \<open>cdnProviders\<close>. Go leaves the iteration order of a map
  unspecified, and it may differ from one \<open>range\<close> statement to the next. The model takes
  the order as an argument: \<open>order k\<close> is the sequence of entries that the \<open>range\<close>
  statement run for the \<open>k\<close>-th address of the list visits. \<open>rangeOver m order\<close> says
  that every such sequence visits each entry of the map \<open>m\<close> once.
\<close>

type_synonym rangeOrder = "nat \<Rightarrow> (string \<times> string list) list"

definition rangeOver :: "(string \<times> string list) list \<Rightarrow> rangeOrder \<Rightarrow> bool" where
  "rangeOver m order = (\<forall>k. set (order k) = set m \<and> distinct (order k))"

text \<open>The body of the innermost loop: a block that does not parse is skipped.\<close>

definition cidrContains :: "string \<Rightarrow> IP \<Rightarrow> bool" where
  "cidrContains cidr parsedIP =
     (case ParseCIDR cidr of None \<Rightarrow> False | Some ipnet \<Rightarrow> Contains ipnet parsedIP)"

fun anyCidr :: "string list \<Rightarrow> IP \<Rightarrow> bool" where
  "anyCidr [] parsedIP = False"
| "anyCidr (cidr # cidrs) parsedIP =
     (if cidrContains cidr parsedIP then True else anyCidr cidrs parsedIP)"

fun firstProvider :: "(string \<times> string list) list \<Rightarrow> IP \<Rightarrow> string option" where
  "firstProvider [] parsedIP = None"
| "firstProvider ((provider, cidrs) # entries) parsedIP =
     (if anyCidr cidrs parsedIP then Some provider else firstProvider entries parsedIP)"

fun detectCDN :: "rangeOrder \<Rightarrow> string list \<Rightarrow> string" where
  "detectCDN order [] = []"
| "detectCDN order (a # as) =
     (case ParseIP a of
        None \<Rightarrow> detectCDN (\<lambda>k. order (Suc k)) as
      | Some parsedIP \<Rightarrow>
          (case firstProvider (order 0) parsedIP of
             Some provider \<Rightarrow> provider
           | None \<Rightarrow> detectCDN (\<lambda>k. order (Suc k)) as))"

text \<open>
  To state what the classifier finds: an address, as text, falls inside the prefixes of
  a table entry when it parses and one of the entry's blocks contains it; and it is an
  IPv6 address when it parses to an address that has no 4-byte form.
\<close>

definition insideProvider :: "string \<Rightarrow> (string \<times> string list) \<Rightarrow> bool" where
  "insideProvider a entry =
     (case ParseIP a of
        None \<Rightarrow> False
      | Some parsedIP \<Rightarrow> list_ex (\<lambda>cidr. cidrContains cidr parsedIP) (snd entry))"

definition isIPv6 :: "string \<Rightarrow> bool" where
  "isIPv6 a = (case ParseIP a of None \<Rightarrow> False | Some parsedIP \<Rightarrow> To4 parsedIP = None)"

section \<open>The network\<close>

text \<open>
  The program reaches the network through three methods of \<open>net.Resolver\<close>:
  \<open>LookupIPAddr\<close> (forward resolution), \<open>LookupHost\<close> and \<open>LookupAddr\<close> (reverse
  resolution). Each returns a slice and an \<open>error\<close>; \<open>None\<close> is Go's nil error. What the
  network answers is not the program's doing, so the three methods are the fields of a
  record \<open>Network\<close> and every property is proved for all networks.

  A call takes a \<open>context.Context\<close>. The program builds contexts with
  \<open>context.Background\<close> and \<open>context.WithTimeout\<close> only; a duration is a number of
  nanoseconds. The package-level function \<open>net.LookupHost host\<close> is
  \<open>DefaultResolver.LookupHost (context.Background ()) host\<close>.

  The resolvers are \<open>net.DefaultResolver\<close>, \<open>&net.Resolver{PreferGo: true}\<close> and the
  same with a \<open>Dial\<close> function that connects to a fixed server with a dial timeout.
\<close>

type_synonym Duration = int

definition Second :: Duration where
  "Second = 1000000000"

datatype Context = Background | WithTimeout Context Duration

fun hasDeadline :: "Context \<Rightarrow> bool" where
  "hasDeadline Background = False"
| "hasDeadline (WithTimeout parent d) = True"

type_synonym error = string

datatype Resolver = DefaultResolver | PreferGo | PreferGoDial Duration string

record Network =
  LookupIPAddr :: "Resolver \<Rightarrow> Context \<Rightarrow> string \<Rightarrow> IPAddr list \<times> error option"
  LookupHost :: "Context \<Rightarrow> string \<Rightarrow> string list \<times> error option"
  LookupAddr :: "Context \<Rightarrow> string \<Rightarrow> string list \<times> error option"

text \<open>The network calls a piece of code makes are recorded in the order it makes them,
  each with the context it was given.\<close>

datatype NetCall =
  CallLookupIPAddr Resolver Context string
| CallLookupHost Context string
| CallLookupAddr Context string

fun callContext :: "NetCall \<Rightarrow> Context" where
  "callContext (CallLookupIPAddr r c d) = c"
| "callContext (CallLookupHost c d) = c"
| "callContext (CallLookupAddr c a) = c"

section \<open>The reverse-lookup enricher\<close>

text \<open>
  \<open>performReverseLookups\<close> starts one goroutine per address; each looks the address up
  under \<open>context.WithTimeout (ctx, 2 * time.Second)\<close> and sends a \<open>reverseResult\<close> (the
  address and a host name, empty when the lookup failed) on a channel with room for all of
  them. \<open>reverseLookup\<close> is the body of the goroutine for one address.
\<close>

type_synonym reverseResult = "string \<times> string"

definition reverseLookup :: "Network \<Rightarrow> Context \<Rightarrow> string \<Rightarrow> reverseResult" where
  "reverseLookup net ctx ipAddr =
     (case LookupAddr net (WithTimeout ctx (2 * Second)) ipAddr of
        (hostnames, err) \<Rightarrow>
          if err \<noteq> None \<or> length hostnames = 0 then (ipAddr, [])
          else (ipAddr, TrimSuffix (hd hostnames) ''.''))"

text \<open>
  The collecting loop runs once per address. Each round is a \<open>select\<close> that either
  receives one result from the channel or finds the context done; the \<open>break\<close> in that
  branch leaves the \<open>select\<close>, not the loop. Which of the two happens, and which
  goroutine's result arrives, depends on timing: the model takes the sequence of these
  events as an argument. \<open>Received j\<close> is the arrival of the result of the goroutine
  started for the \<open>j\<close>-th address. Rounds beyond the end of the sequence, and arrivals
  from goroutines that do not exist, store nothing.
\<close>

datatype Collect = Received nat | Done

fun collectStep ::
  "reverseResult list \<Rightarrow> (string \<rightharpoonup> string) \<Rightarrow> Collect \<Rightarrow> (string \<rightharpoonup> string)" where
  "collectStep results reverseMap Done = reverseMap"
| "collectStep results reverseMap (Received j) =
     (if j < length results
      then reverseMap(fst (results ! j) \<mapsto> snd (results ! j))
      else reverseMap)"

definition formatIP :: "(string \<rightharpoonup> string) \<Rightarrow> string \<Rightarrow> string" where
  "formatIP reverseMap a =
     (case reverseMap a of
        Some hostname \<Rightarrow> if hostname \<noteq> [] then a @ ''['' @ hostname @ '']'' else a
      | None \<Rightarrow> a)"

definition performReverseLookups ::
  "Network \<Rightarrow> Collect list \<Rightarrow> Context \<Rightarrow> string list \<Rightarrow> string list \<times> NetCall list" where
  "performReverseLookups net sched ctx as =
     (let results = map (reverseLookup net ctx) as;
          reverseMap = foldl (collectStep results) Map.empty (take (length as) sched)
      in (map (formatIP reverseMap) as,
          map (CallLookupAddr (WithTimeout ctx (2 * Second))) as))"

section \<open>Resolving one request\<close>

text \<open>The strategy list that \<open>processDNSRequest\<close> builds from its flags. A strategy is a
  closure that calls \<open>LookupIPAddr\<close> on its resolver.\<close>

definition dialGoogle :: "Duration \<Rightarrow> Resolver" where
  "dialGoogle dnsTimeout = PreferGoDial dnsTimeout ''8.8.8.8:53''"

definition dialCloudflare :: "Duration \<Rightarrow> Resolver" where
  "dialCloudflare dnsTimeout = PreferGoDial dnsTimeout ''1.1.1.1:53''"

definition dialQuad9 :: "Duration \<Rightarrow> Resolver" where
  "dialQuad9 dnsTimeout = PreferGoDial dnsTimeout ''9.9.9.9:53''"

definition dialOpenDNS :: "Duration \<Rightarrow> Resolver" where
  "dialOpenDNS dnsTimeout = PreferGoDial dnsTimeout ''208.67.222.222:53''"

definition strategies :: "Duration \<Rightarrow> bool \<Rightarrow> bool \<Rightarrow> bool \<Rightarrow> Resolver list" where
  "strategies dnsTimeout forceGoogle forceCF noSystemDNS =
     (if forceGoogle then [dialGoogle dnsTimeout]
      else if forceCF then [dialCloudflare dnsTimeout]
      else (if \<not> noSystemDNS then [DefaultResolver, PreferGo] else []) @
           [dialGoogle dnsTimeout, dialCloudflare dnsTimeout,
            dialQuad9 dnsTimeout, dialOpenDNS dnsTimeout])"

text \<open>
  The variables \<open>ips\<close>, \<open>err\<close> and \<open>successfulStrategy\<close> of \<open>processDNSRequest\<close>,
  together with the calls made so far, are the state of the loop over the strategies.
  \<open>tryStrategies\<close> is that loop from index \<open>i\<close> on; the pause of 50 ms after a failed
  attempt changes none of these variables.
\<close>

type_synonym lookupState = "IPAddr list \<times> error option \<times> int \<times> NetCall list"

fun tryStrategies ::
  "Network \<Rightarrow> Context \<Rightarrow> string \<Rightarrow> Resolver list \<Rightarrow> int \<Rightarrow> lookupState \<Rightarrow> lookupState" where
  "tryStrategies net ctx d [] i st = st"
| "tryStrategies net ctx d (strategy # rest) i (ips, err, successfulStrategy, calls) =
     (case LookupIPAddr net strategy ctx d of
        (ips', err') \<Rightarrow>
          if err' = None \<and> 0 < length ips'
          then (ips', err', i, calls @ [CallLookupIPAddr strategy ctx d])
          else tryStrategies net ctx d rest (i + 1)
                 (ips', err', successfulStrategy, calls @ [CallLookupIPAddr strategy ctx d]))"

text \<open>The fallback: \<open>if err != nil { hosts, err = net.LookupHost (domain) ... }\<close>. Hosts
  that do not parse as addresses are dropped; \<open>n\<close> is the number of strategies.\<close>

definition hostAddrs :: "string list \<Rightarrow> IPAddr list" where
  "hostAddrs hosts = map (\<lambda>b. \<lparr>IP = b, Zone = []\<rparr>) (List.map_filter ParseIP hosts)"

fun lookupHostFallback :: "Network \<Rightarrow> string \<Rightarrow> int \<Rightarrow> lookupState \<Rightarrow> lookupState" where
  "lookupHostFallback net d n (ips, err, successfulStrategy, calls) =
     (if err \<noteq> None then
        (case LookupHost net Background d of
           (hosts, err') \<Rightarrow>
             if err' = None \<and> 0 < length hosts
             then (ips @ hostAddrs hosts, err', n, calls @ [CallLookupHost Background d])
             else (ips, err', successfulStrategy, calls @ [CallLookupHost Background d]))
      else (ips, err, successfulStrategy, calls))"

definition resolve ::
  "Network \<Rightarrow> DNSRequest \<Rightarrow> Duration \<Rightarrow> bool \<Rightarrow> bool \<Rightarrow> bool \<Rightarrow> lookupState" where
  "resolve net request dnsTimeout forceGoogle forceCF noSystemDNS =
     (let ctx = WithTimeout Background (dnsTimeout * 3);
          strats = strategies dnsTimeout forceGoogle forceCF noSystemDNS
      in lookupHostFallback net (domain request) (int (length strats))
           (tryStrategies net ctx (domain request) strats 0 ([], None, - 1, [])))"

text \<open>The names of the verbose tag, indexed by \<open>successfulStrategy\<close>.\<close>

definition strategyNames :: "string list" where
  "strategyNames =
     [''system'', ''go-builtin'', ''google'', ''cloudflare'', ''quad9'', ''opendns'',
      ''fallback'']"

definition viaTag :: "bool \<Rightarrow> int \<Rightarrow> string" where
  "viaTag verbose successfulStrategy =
     (if verbose \<and> 0 \<le> successfulStrategy \<and> successfulStrategy < int (length strategyNames)
      then ''_VIA_'' @ ToUpper (strategyNames ! nat successfulStrategy)
      else [])"

definition mismatchStatus :: "string \<Rightarrow> string" where
  "mismatchStatus cdnProvider =
     (if cdnProvider \<noteq> [] then ''CDN_MISMATCH_'' @ ToUpper cdnProvider else ''IP_MISMATCH'')"

text \<open>
  \<open>processDNSRequest\<close>. Besides the request and the flags of the source it takes what the
  run depends on from outside: the network, the iteration order of the provider map and
  the arrival of the reverse lookups. It returns the \<open>DNSResult\<close> and the network calls
  it made.
\<close>

definition processDNSRequest ::
  "Network \<Rightarrow> rangeOrder \<Rightarrow> Collect list \<Rightarrow>
   DNSRequest \<Rightarrow> Duration \<Rightarrow> bool \<Rightarrow> bool \<Rightarrow> bool \<Rightarrow> bool \<Rightarrow> DNSResult \<times> NetCall list" where
  "processDNSRequest net order sched request dnsTimeout forceGoogle forceCF noSystemDNS verbose =
     (case resolve net request dnsTimeout forceGoogle forceCF noSystemDNS of
        (ips, err, successfulStrategy, calls) \<Rightarrow>
          if err \<noteq> None \<or> length ips = 0 then
            (\<lparr>line = DNSRequest.line request, shouldPrint = True,
              status = ''DNS_FAILURE'', resolvedIPs = []\<rparr>, calls)
          else
            (let resolvedIPStrings = map (\<lambda>a. IP_String (IP a)) ips;
                 foundMatch = (expectedIP request \<in> set resolvedIPStrings)
             in if foundMatch then
                  (\<lparr>line = DNSRequest.line request, shouldPrint = False,
                    status = ''MATCH'', resolvedIPs = resolvedIPStrings\<rparr>, calls)
                else
                  (let cdnProvider = detectCDN order resolvedIPStrings;
                       status1 = mismatchStatus cdnProvider @ viaTag verbose successfulStrategy
                   in case performReverseLookups net sched
                             (WithTimeout Background (dnsTimeout * 3)) resolvedIPStrings of
                        (formattedIPs, calls') \<Rightarrow>
                          (\<lparr>line = DNSRequest.line request, shouldPrint = True,
                            status = status1, resolvedIPs = formattedIPs\<rparr>, calls @ calls'))))"

section \<open>Printing\<close>

text \<open>The same lines are printed by \<open>outputWorker\<close>, by \<open>dnsWorker\<close> when the output
  channel stays full, and by the reader for a request it processed itself: a result is
  printed only when \<open>shouldPrint\<close> is set, with the addresses joined by commas when there
  are any. \<open>outputWorker\<close> does so for the results in the order it receives them.\<close>

definition printResult :: "DNSResult \<Rightarrow> string list" where
  "printResult result =
     (if shouldPrint result then
        (if 0 < length (resolvedIPs result)
         then [DNSResult.line result @ '' '' @ status result @ '' '' @
               Join (resolvedIPs result) '','' @ [CHR 0x0A]]
         else [DNSResult.line result @ '' '' @ status result @ [CHR 0x0A]])
      else [])"

fun outputWorker :: "DNSResult list \<Rightarrow> string list" where
  "outputWorker [] = []"
| "outputWorker (result # results) = printResult result @ outputWorker results"

section \<open>Reading the input\<close>

text \<open>
  The reader matches every line against the regular expression
  \<^verbatim>\<open>^(\d+\.\d+\.\d+\.\d+):(\d+)\s+\[([^\]]+)\]\<close>.
  In Go's syntax \<^verbatim>\<open>\d\<close> is an ASCII digit and \<^verbatim>\<open>\s\<close> one of tab, line feed, form
  feed, carriage return and space. Every repetition of the expression is followed by a
  character outside the repeated class, so the match, if there is one, takes the longest
  run each time. \<open>matchLine\<close> returns the three groups and the text after the match.
\<close>

definition isSpaceRE :: "char \<Rightarrow> bool" where
  "isSpaceRE c = (ord c = 9 \<or> ord c = 10 \<or> ord c = 12 \<or> ord c = 13 \<or> ord c = 32)"

definition many1 :: "(char \<Rightarrow> bool) \<Rightarrow> string \<Rightarrow> (string \<times> string) option" where
  "many1 P s = (if takeWhile P s = [] then None else Some (takeWhile P s, dropWhile P s))"

fun lit :: "char \<Rightarrow> string \<Rightarrow> string option" where
  "lit c [] = None"
| "lit c (x # xs) = (if x = c then Some xs else None)"

definition matchLine :: "string \<Rightarrow> (string \<times> string \<times> string \<times> string) option" where
  "matchLine s =
     Option.bind (many1 isDigit s) (\<lambda>(a, r1).
     Option.bind (lit (CHR ''.'') r1) (\<lambda>r2.
     Option.bind (many1 isDigit r2) (\<lambda>(b, r3).
     Option.bind (lit (CHR ''.'') r3) (\<lambda>r4.
     Option.bind (many1 isDigit r4) (\<lambda>(c, r5).
     Option.bind (lit (CHR ''.'') r5) (\<lambda>r6.
     Option.bind (many1 isDigit r6) (\<lambda>(e, r7).
     Option.bind (lit (CHR '':'') r7) (\<lambda>r8.
     Option.bind (many1 isDigit r8) (\<lambda>(port, r9).
     Option.bind (many1 isSpaceRE r9) (\<lambda>(ws, r10).
     Option.bind (lit (CHR ''['') r10) (\<lambda>r11.
     Option.bind (many1 (\<lambda>x. x \<noteq> CHR '']'') r11) (\<lambda>(name, r12).
     Option.bind (lit (CHR '']'') r12) (\<lambda>r13.
     Some (a @ ''.'' @ b @ ''.'' @ c @ ''.'' @ e, port, name, r13))))))))))))))"

text \<open>\<open>FindStringSubmatch\<close>: the whole match and the three groups, or nil.\<close>

definition FindStringSubmatch :: "string \<Rightarrow> string list" where
  "FindStringSubmatch s =
     (case matchLine s of
        None \<Rightarrow> []
      | Some (g1, g2, g3, rest) \<Rightarrow> [take (length s - length rest) s, g1, g2, g3])"

text \<open>
  What the reader does with one line of the scanner: an empty line (after trimming) is
  skipped, a line that does not match becomes a \<open>MALFORMED\<close> result for the output
  channel, and a line that matches becomes a request for the workers. When the output
  channel does not take the \<open>MALFORMED\<close> result within a second the reader prints the
  line itself; \<open>printMalformed\<close> is that \<open>Printf\<close>.
\<close>

datatype Routed = Skipped | ToOutput DNSResult | ToWorkers DNSRequest

definition readRecord :: "string \<Rightarrow> Routed" where
  "readRecord text =
     (let ln = TrimSpace text
      in if ln = [] then Skipped
         else
           (let matches = FindStringSubmatch ln
            in if length matches \<noteq> 4 then
                 ToOutput \<lparr>line = ln, shouldPrint = True, status = ''MALFORMED'',
                           resolvedIPs = []\<rparr>
               else
                 ToWorkers \<lparr>DNSRequest.line = ln, expectedIP = matches ! 1,
                            domain = matches ! 3\<rparr>))"

definition printMalformed :: "string \<Rightarrow> string list" where
  "printMalformed ln = [ln @ '' MALFORMED'' @ [CHR 0x0A]]"

text \<open>
  \<open>malformedResult\<close> is the struct literal of that branch. \<open>malformedOf\<close> and
  \<open>acceptedOf\<close> give, for a list of lines read in order, the \<open>MALFORMED\<close> results and
  the requests that the reader builds from them.
\<close>

definition malformedResult :: "string \<Rightarrow> DNSResult" where
  "malformedResult ln =
     \<lparr>line = ln, shouldPrint = True, status = ''MALFORMED'', resolvedIPs = []\<rparr>"

definition recordResult :: "string \<Rightarrow> DNSResult option" where
  "recordResult l = (case readRecord l of ToOutput r \<Rightarrow> Some r | _ \<Rightarrow> None)"

definition recordRequest :: "string \<Rightarrow> DNSRequest option" where
  "recordRequest l = (case readRecord l of ToWorkers q \<Rightarrow> Some q | _ \<Rightarrow> None)"

definition malformedOf :: "string list \<Rightarrow> DNSResult list" where
  "malformedOf ls = List.map_filter recordResult ls"

definition acceptedOf :: "string list \<Rightarrow> DNSRequest list" where
  "acceptedOf ls = List.map_filter recordRequest ls"

section \<open>The pipeline\<close>

text \<open>
  \<open>main\<close> starts the workers (\<open>dnsWorker\<close>), the output goroutine
  (\<open>outputWorker\<close>) and a reader goroutine, which communicate over the channels
  \<open>inputChan\<close> and \<open>outputChan\<close>. The run of these goroutines is modelled as a
  transition system: a state holds the input not yet scanned, the contents of the two
  channels, where each goroutine stands, and what has been printed; a step is one action
  of one goroutine, and the goroutines interleave freely.

  The flags of the program are fixed for a run.
\<close>

record Config =
  cfgNet :: Network
  cfgTimeout :: Duration
  cfgForceGoogle :: bool
  cfgForceCF :: bool
  cfgNoSystemDNS :: bool
  cfgVerbose :: bool

definition process :: "Config \<Rightarrow> rangeOrder \<Rightarrow> Collect list \<Rightarrow> DNSRequest \<Rightarrow> DNSResult" where
  "process cfg order sched request =
     fst (processDNSRequest (cfgNet cfg) order sched request (cfgTimeout cfg)
            (cfgForceGoogle cfg) (cfgForceCF cfg) (cfgNoSystemDNS cfg) (cfgVerbose cfg))"

text \<open>Where the goroutines stand. The reader is scanning, or waits in a \<open>select\<close> with a
  request for \<open>inputChan\<close>, with the result of a request it processed itself, or with a
  \<open>MALFORMED\<close> result for \<open>outputChan\<close>, or has returned. A worker waits to receive
  a request, or waits in its \<open>select\<close> with a result for \<open>outputChan\<close>, or has
  returned. \<open>main\<close> waits for the workers (\<open>wg.Wait\<close>), or has closed \<open>outputChan\<close>
  and waits for the output goroutine, or has returned, which ends the program.\<close>

datatype ReaderPC =
  Scanning
| OfferRequest DNSRequest
| OfferInline DNSResult
| OfferMalformed DNSResult
| ReaderReturned

datatype WorkerPC = Receiving | Offering DNSResult | WorkerReturned

datatype MainPC = Waiting | Closing | Exited

datatype SinkPC = Draining | SinkDone

text \<open>
  The state. Besides the variables of the program it records what happened, for the
  statement of the properties: the requests the reader built (\<open>accepted\<close>), each
  request that was resolved with its result (\<open>produced\<close>), the \<open>MALFORMED\<close> results
  (\<open>malformed\<close>), and the results that reached one of the three places where a result
  is printed or silently dropped (\<open>handled\<close>).
\<close>

record Pipeline =
  stdin :: "string list"
  reader :: ReaderPC
  inputChan :: "DNSRequest list"
  inputClosed :: bool
  workers :: "WorkerPC list"
  outputChan :: "DNSResult list"
  outputClosed :: bool
  mainPC :: MainPC
  sinkPC :: SinkPC
  stdout :: "string list"
  panicked :: bool
  accepted :: "DNSRequest list"
  produced :: "(DNSRequest \<times> DNSResult) list"
  malformed :: "DNSResult list"
  handled :: "DNSResult list"

definition start :: "nat \<Rightarrow> string list \<Rightarrow> Pipeline" where
  "start n input =
     \<lparr>stdin = input, reader = Scanning, inputChan = [], inputClosed = False,
      workers = replicate n Receiving, outputChan = [], outputClosed = False,
      mainPC = Waiting, sinkPC = Draining, stdout = [], panicked = False,
      accepted = [], produced = [], malformed = [], handled = []\<rparr>"

definition running :: "Pipeline \<Rightarrow> bool" where
  "running s = (mainPC s \<noteq> Exited \<and> \<not> panicked s)"

text \<open>
  The steps, in the order of the source text. A send on a channel is possible whenever
  the channel is open: whether the buffer has room, or a receiver is ready, is left open,
  and so is the moment at which the timer of a \<open>select\<close> fires. The runs of the model
  therefore include the runs of the program for every channel capacity and every timing.
  A send on a closed channel is a panic, which ends the program, as does the return of
  \<open>main\<close>.

  \<^item> Reader: \<open>scan_blank\<close>, \<open>scan_malformed\<close> and \<open>scan_request\<close> read one line
    (\<open>readRecord\<close>); \<open>scan_end\<close> is the end of the scan (at the end of the input, or
    earlier on a read error), after which the deferred \<open>close (inputChan)\<close> runs.
    \<open>request_queued\<close> and \<open>request_inline\<close> are the two branches of the \<open>select\<close>
    on \<open>inputChan\<close>; \<open>inline_queued\<close>, \<open>inline_printed\<close>, \<open>malformed_queued\<close>
    and \<open>malformed_printed\<close> those of the \<open>select\<close>s on \<open>outputChan\<close>.
  \<^item> Worker \<open>i\<close>: \<open>worker_receive\<close> takes a request from \<open>inputChan\<close> and
    resolves it; \<open>worker_queued\<close> and \<open>worker_printed\<close> are the branches of its
    \<open>select\<close>; \<open>worker_return\<close> ends the \<open>range\<close> over the closed and empty
    channel.
  \<^item> \<open>main\<close>: \<open>main_close\<close> is \<open>wg.Wait\<close> followed by \<open>close (outputChan)\<close>,
    \<open>main_exit\<close> the receipt of \<open>outputDone\<close>.
  \<^item> \<open>outputWorker\<close>: \<open>sink_receive\<close> prints one result, \<open>sink_done\<close> ends the
    \<open>range\<close> over the closed and empty channel.
\<close>

inductive step :: "Config \<Rightarrow> Pipeline \<Rightarrow> Pipeline \<Rightarrow> bool" for cfg :: Config where
  scan_blank:
    "running s \<Longrightarrow> reader s = Scanning \<Longrightarrow> stdin s = l # ls \<Longrightarrow> readRecord l = Skipped \<Longrightarrow>
     step cfg s (s\<lparr>stdin := ls\<rparr>)"
| scan_malformed:
    "running s \<Longrightarrow> reader s = Scanning \<Longrightarrow> stdin s = l # ls \<Longrightarrow> readRecord l = ToOutput r \<Longrightarrow>
     step cfg s (s\<lparr>stdin := ls, reader := OfferMalformed r, malformed := malformed s @ [r]\<rparr>)"
| scan_request:
    "running s \<Longrightarrow> reader s = Scanning \<Longrightarrow> stdin s = l # ls \<Longrightarrow> readRecord l = ToWorkers q \<Longrightarrow>
     step cfg s (s\<lparr>stdin := ls, reader := OfferRequest q, accepted := accepted s @ [q]\<rparr>)"
| scan_end:
    "running s \<Longrightarrow> reader s = Scanning \<Longrightarrow>
     step cfg s (s\<lparr>reader := ReaderReturned, inputClosed := True\<rparr>)"
| request_queued:
    "running s \<Longrightarrow> reader s = OfferRequest q \<Longrightarrow>
     step cfg s (s\<lparr>reader := Scanning, inputChan := inputChan s @ [q]\<rparr>)"
| request_inline:
    "running s \<Longrightarrow> reader s = OfferRequest q \<Longrightarrow> rangeOver cdnProviders order \<Longrightarrow>
     r = process cfg order sched q \<Longrightarrow>
     step cfg s (s\<lparr>reader := OfferInline r, produced := produced s @ [(q, r)]\<rparr>)"
| inline_queued:
    "running s \<Longrightarrow> reader s = OfferInline r \<Longrightarrow> \<not> outputClosed s \<Longrightarrow>
     step cfg s (s\<lparr>reader := Scanning, outputChan := outputChan s @ [r]\<rparr>)"
| inline_printed:
    "running s \<Longrightarrow> reader s = OfferInline r \<Longrightarrow>
     step cfg s (s\<lparr>reader := Scanning, stdout := stdout s @ printResult r,
                     handled := handled s @ [r]\<rparr>)"
| malformed_queued:
    "running s \<Longrightarrow> reader s = OfferMalformed r \<Longrightarrow> \<not> outputClosed s \<Longrightarrow>
     step cfg s (s\<lparr>reader := Scanning, outputChan := outputChan s @ [r]\<rparr>)"
| malformed_printed:
    "running s \<Longrightarrow> reader s = OfferMalformed r \<Longrightarrow>
     step cfg s (s\<lparr>reader := Scanning, stdout := stdout s @ printMalformed (DNSResult.line r),
                     handled := handled s @ [r]\<rparr>)"
| reader_panic:
    "running s \<Longrightarrow> reader s = OfferInline r \<or> reader s = OfferMalformed r \<Longrightarrow> outputClosed s \<Longrightarrow>
     step cfg s (s\<lparr>panicked := True\<rparr>)"
| worker_receive:
    "running s \<Longrightarrow> i < length (workers s) \<Longrightarrow> workers s ! i = Receiving \<Longrightarrow>
     inputChan s = q # qs \<Longrightarrow> rangeOver cdnProviders order \<Longrightarrow>
     r = process cfg order sched q \<Longrightarrow>
     step cfg s (s\<lparr>inputChan := qs, workers := (workers s)[i := Offering r],
                     produced := produced s @ [(q, r)]\<rparr>)"
| worker_queued:
    "running s \<Longrightarrow> i < length (workers s) \<Longrightarrow> workers s ! i = Offering r \<Longrightarrow>
     \<not> outputClosed s \<Longrightarrow>
     step cfg s (s\<lparr>workers := (workers s)[i := Receiving], outputChan := outputChan s @ [r]\<rparr>)"
| worker_printed:
    "running s \<Longrightarrow> i < length (workers s) \<Longrightarrow> workers s ! i = Offering r \<Longrightarrow>
     step cfg s (s\<lparr>workers := (workers s)[i := Receiving], stdout := stdout s @ printResult r,
                     handled := handled s @ [r]\<rparr>)"
| worker_panic:
    "running s \<Longrightarrow> i < length (workers s) \<Longrightarrow> workers s ! i = Offering r \<Longrightarrow>
     outputClosed s \<Longrightarrow>
     step cfg s (s\<lparr>panicked := True\<rparr>)"
| worker_return:
    "running s \<Longrightarrow> i < length (workers s) \<Longrightarrow> workers s ! i = Receiving \<Longrightarrow>
     inputChan s = [] \<Longrightarrow> inputClosed s \<Longrightarrow>
     step cfg s (s\<lparr>workers := (workers s)[i := WorkerReturned]\<rparr>)"
| main_close:
    "running s \<Longrightarrow> mainPC s = Waiting \<Longrightarrow> \<forall>w\<in>set (workers s). w = WorkerReturned \<Longrightarrow>
     step cfg s (s\<lparr>mainPC := Closing, outputClosed := True\<rparr>)"
| main_exit:
    "running s \<Longrightarrow> mainPC s = Closing \<Longrightarrow> sinkPC s = SinkDone \<Longrightarrow>
     step cfg s (s\<lparr>mainPC := Exited\<rparr>)"
| sink_receive:
    "running s \<Longrightarrow> sinkPC s = Draining \<Longrightarrow> outputChan s = r # rs \<Longrightarrow>
     step cfg s (s\<lparr>outputChan := rs, stdout := stdout s @ printResult r,
                     handled := handled s @ [r]\<rparr>)"
| sink_done:
    "running s \<Longrightarrow> sinkPC s = Draining \<Longrightarrow> outputChan s = [] \<Longrightarrow> outputClosed s \<Longrightarrow>
     step cfg s (s\<lparr>sinkPC := SinkDone\<rparr>)"

inductive reachable :: "Config \<Rightarrow> nat \<Rightarrow> string list \<Rightarrow> Pipeline \<Rightarrow> bool"
  for cfg :: Config and n :: nat and input :: "string list" where
  initial: "reachable cfg n input (start n input)"
| later: "reachable cfg n input s \<Longrightarrow> step cfg s s' \<Longrightarrow> reachable cfg n input s'"

text \<open>The requests and results that are on their way: in a channel or in the hands of a
  goroutine.\<close>

fun readerHolds :: "ReaderPC \<Rightarrow> DNSResult multiset" where
  "readerHolds (OfferInline r) = {#r#}"
| "readerHolds (OfferMalformed r) = {#r#}"
| "readerHolds pc = {#}"

fun readerRequest :: "ReaderPC \<Rightarrow> DNSRequest multiset" where
  "readerRequest (OfferRequest q) = {#q#}"
| "readerRequest pc = {#}"

fun workerHolds :: "WorkerPC \<Rightarrow> DNSResult multiset" where
  "workerHolds (Offering r) = {#r#}"
| "workerHolds pc = {#}"

definition inFlightResults :: "Pipeline \<Rightarrow> DNSResult multiset" where
  "inFlightResults s =
     readerHolds (reader s) + sum_list (map workerHolds (workers s)) + mset (outputChan s)"

definition inFlightRequests :: "Pipeline \<Rightarrow> DNSRequest multiset" where
  "inFlightRequests s = readerRequest (reader s) + mset (inputChan s)"

text \<open>A measure of the work left in a state; every step lowers it.\<close>

fun readerCost :: "ReaderPC \<Rightarrow> nat" where
  "readerCost Scanning = 1"
| "readerCost (OfferRequest q) = 6"
| "readerCost (OfferInline r) = 4"
| "readerCost (OfferMalformed r) = 4"
| "readerCost ReaderReturned = 0"

fun workerCost :: "WorkerPC \<Rightarrow> nat" where
  "workerCost Receiving = 1"
| "workerCost (Offering r) = 4"
| "workerCost WorkerReturned = 0"

fun mainCost :: "MainPC \<Rightarrow> nat" where
  "mainCost Waiting = 2"
| "mainCost Closing = 1"
| "mainCost Exited = 0"

fun sinkCost :: "SinkPC \<Rightarrow> nat" where
  "sinkCost Draining = 1"
| "sinkCost SinkDone = 0"

definition potential :: "Pipeline \<Rightarrow> nat" where
  "potential s =
     7 * length (stdin s) + readerCost (reader s) + 4 * length (inputChan s) +
     sum_list (map workerCost (workers s)) + 2 * length (outputChan s) +
     mainCost (mainPC s) + sinkCost (sinkPC s) + (if panicked s then 0 else 1)"

section \<open>Example inputs\<close>

text \<open>A request and some networks on which the properties below are run.\<close>

definition exampleRequest :: DNSRequest where
  "exampleRequest =
     \<lparr>DNSRequest.line = ''1.2.3.4:443 [example.com]'', expectedIP = ''1.2.3.4'',
      domain = ''example.com''\<rparr>"

text \<open>The system resolver fails; every other resolver answers with three addresses, the
  expected one among them.\<close>

definition netMatch :: Network where
  "netMatch =
     \<lparr>LookupIPAddr = (\<lambda>r c d.
        if r = DefaultResolver then ([], Some ''lookup example.com: no such host'')
        else ([\<lparr>IP = [5, 6, 7, 8], Zone = []\<rparr>, \<lparr>IP = [1, 2, 3, 4], Zone = []\<rparr>,
               \<lparr>IP = [23, 32, 0, 1], Zone = []\<rparr>], None)),
      LookupHost = (\<lambda>c d. ([], Some ''no such host'')),
      LookupAddr = (\<lambda>c a. ([], Some ''no such host''))\<rparr>"


text \<open>Every resolver answers 8.8.8.8 and 23.32.0.1, an address inside an Akamai block
  whose reverse lookup gives a host name with a trailing dot.\<close>

definition netAkamai :: Network where
  "netAkamai =
     \<lparr>LookupIPAddr = (\<lambda>r c d. ([\<lparr>IP = [8, 8, 8, 8], Zone = []\<rparr>, \<lparr>IP = [23, 32, 0, 1], Zone = []\<rparr>], None)),
      LookupHost = (\<lambda>c d. ([], Some ''no such host'')),
      LookupAddr = (\<lambda>c a.
        if a = ''23.32.0.1'' then ([''a23-32-0-1.deploy.static.akamaitechnologies.com.''], None)
        else ([], Some ''no such host''))\<rparr>"

text \<open>Every resolver answers one IPv6 address.\<close>

definition netIPv6 :: Network where
  "netIPv6 =
     \<lparr>LookupIPAddr = (\<lambda>r c d.
        ([\<lparr>IP = [0x26, 0, 0x14, 8, 0xc4, 0, 0, 0x4d, 0, 0, 0, 0, 0x17, 0x49, 0xcf, 0x45],
           Zone = []\<rparr>], None)),
      LookupHost = (\<lambda>c d. ([], Some ''no such host'')),
      LookupAddr = (\<lambda>c a. ([], Some ''no such host''))\<rparr>"

text \<open>Every resolver answers with no address and no error; \<open>LookupHost\<close> would find an
  address.\<close>

definition netEmptyAnswer :: Network where
  "netEmptyAnswer =
     \<lparr>LookupIPAddr = (\<lambda>r c d. ([], None)),
      LookupHost = (\<lambda>c d. ([''93.184.216.34''], None)),
      LookupAddr = (\<lambda>c a. ([], Some ''no such host''))\<rparr>"

text \<open>Every lookup fails with an error.\<close>

definition netDown :: Network where
  "netDown =
     \<lparr>LookupIPAddr = (\<lambda>r c d. ([], Some ''i/o timeout'')),
      LookupHost = (\<lambda>c d. ([], Some ''no such host'')),
      LookupAddr = (\<lambda>c a. ([], Some ''no such host''))\<rparr>"

text \<open>A run configuration on \<open>netAkamai\<close>, the result of \<open>exampleRequest\<close> under it,
  and two final states of the pipeline for the input line of \<open>exampleRequest\<close>: one of
  a run without workers, in which the request is still in \<open>inputChan\<close> when \<open>main\<close>
  returns, and one of a run with one worker.\<close>

definition exampleConfig :: Config where
  "exampleConfig =
     \<lparr>cfgNet = netAkamai, cfgTimeout = 5 * Second, cfgForceGoogle = False, cfgForceCF = False,
      cfgNoSystemDNS = False, cfgVerbose = False\<rparr>"

definition exampleResult :: DNSResult where
  "exampleResult = process exampleConfig (\<lambda>k. cdnProviders) [Received 1, Received 0] exampleRequest"

definition lostRun :: Pipeline where
  "lostRun =
     \<lparr>stdin = [], reader = Scanning, inputChan = [exampleRequest], inputClosed = False,
      workers = [], outputChan = [], outputClosed = True, mainPC = Exited, sinkPC = SinkDone,
      stdout = [], panicked = False, accepted = [exampleRequest], produced = [],
      malformed = [], handled = []\<rparr>"

definition doneRun :: Pipeline where
  "doneRun =
     \<lparr>stdin = [], reader = ReaderReturned, inputChan = [], inputClosed = True,
      workers = [WorkerReturned], outputChan = [], outputClosed = True, mainPC = Exited,
      sinkPC = SinkDone, stdout = printResult exampleResult, panicked = False,
      accepted = [exampleRequest], produced = [(exampleRequest, exampleResult)],
      malformed = [], handled = [exampleResult]\<rparr>"

text \<open>Two final states of the pipeline for the input line \<open>garbage text\<close>: one of a run
  without workers, in which \<open>main\<close> returns while the reader still holds the
  \<open>MALFORMED\<close> result, and one of a run with one worker, in which the output goroutine
  prints it.\<close>

definition garbageLost :: Pipeline where
  "garbageLost =
     \<lparr>stdin = [], reader = OfferMalformed (malformedResult ''garbage text''), inputChan = [],
      inputClosed = False, workers = [], outputChan = [], outputClosed = True,
      mainPC = Exited, sinkPC = SinkDone, stdout = [], panicked = False, accepted = [],
      produced = [], malformed = [malformedResult ''garbage text''], handled = []\<rparr>"

definition garbageDone :: Pipeline where
  "garbageDone =
     \<lparr>stdin = [], reader = ReaderReturned, inputChan = [], inputClosed = True,
      workers = [WorkerReturned], outputChan = [], outputClosed = True, mainPC = Exited,
      sinkPC = SinkDone, stdout = [''garbage text MALFORMED'' @ [CHR 0x0A]], panicked = False,
      accepted = [], produced = [], malformed = [malformedResult ''garbage text''],
      handled = [malformedResult ''garbage text'']\<rparr>"

section \<open>Verified properties\<close>

subsection \<open>Matching requests are suppressed\<close>

lemma outputWorker_append:
  "outputWorker (xs @ ys) = outputWorker xs @ outputWorker ys"
  by (induction xs) simp_all

text \<open>
  \<open>processDNSRequest\<close> compares the text of each resolved address with the text of the
  expected address. For an expected address that is a valid dotted-decimal literal this
  is the comparison of the addresses: the literal is the text \<open>IP.String\<close> gives for its
  address, in the 4-byte and in the mapped 16-byte form.
\<close>

lemma digitChar_digitVal:
  "isDigit c \<Longrightarrow> digitChar (digitVal c) = c"
  by (simp add: isDigit_def digitChar_def digitVal_def ord_def)

lemma digitVal_range:
  "isDigit c \<Longrightarrow> 0 \<le> digitVal c \<and> digitVal c < 10"
  by (simp add: isDigit_def digitVal_def)

lemma decVal_snoc:
  "decVal (f @ [c]) = decVal f * 10 + digitVal c"
  by (simp add: decVal_def)

lemma decVal_nonneg:
  "list_all isDigit f \<Longrightarrow> 0 \<le> decVal f"
proof (induction f rule: rev_induct)
  case Nil
  show ?case by (simp add: decVal_def)
next
  case (snoc c f)
  then show ?case using digitVal_range [of c] by (simp add: decVal_snoc)
qed

lemma itoa_decVal_nonzero:
  "f \<noteq> [] \<Longrightarrow> list_all isDigit f \<Longrightarrow> hd f \<noteq> CHR ''0'' \<Longrightarrow>
     itoa (decVal f) = f \<and> 0 < decVal f"
proof (induction f rule: rev_induct)
  case Nil
  then show ?case by simp
next
  case (snoc c f)
  have dc: "isDigit c" using snoc.prems(2) by simp
  note r = digitVal_range [OF dc]
  show ?case
  proof (cases "f = []")
    case True
    have "digitVal c \<noteq> 0"
    proof
      assume "digitVal c = 0"
      then have "(of_char c :: int) = of_char (CHR ''0'')"
        by (simp add: digitVal_def ord_def)
      then have "c = CHR ''0''"
        by (simp only: of_char_eq_iff)
      then show False using snoc.prems(3) True by simp
    qed
    then have pos: "0 < digitVal c" using r by simp
    have "itoa (digitVal c) = [digitChar (digitVal c)]"
      using r by (subst itoa.simps) simp
    then have "itoa (digitVal c) = [c]"
      using digitChar_digitVal [OF dc] by simp
    then show ?thesis using True pos by (simp add: decVal_def)
  next
    case False
    then have ih: "itoa (decVal f) = f" "0 < decVal f"
      using snoc.IH snoc.prems by simp_all
    have ge: "\<not> decVal f * 10 + digitVal c < 10"
      using ih(2) r by simp
    have d: "(decVal f * 10 + digitVal c) div 10 = decVal f"
      using r by simp
    have m: "(decVal f * 10 + digitVal c) mod 10 = digitVal c"
      using r by simp
    have "itoa (decVal f * 10 + digitVal c) = f @ [c]"
      using ge d m ih(1) digitChar_digitVal [OF dc]
      by (subst itoa.simps) simp
    then show ?thesis using ih(2) r by (simp add: decVal_snoc)
  qed
qed


lemma itoa_zero: "itoa 0 = ''0''"
  by code_simp

lemma ipv4Field_text:
  assumes "ipv4Field f = Some x"
  shows "itoa (uint x) = f"
proof -
  from assms have f: "f \<noteq> []" "list_all isDigit f" "\<not> (1 < length f \<and> hd f = CHR ''0'')"
      "\<not> 255 < decVal f" "x = word_of_int (decVal f)"
    by (auto simp: ipv4Field_def split: if_splits)
  have "0 \<le> decVal f"
    by (rule decVal_nonneg [OF f(2)])
  then have u: "uint x = decVal f"
    using f(4,5) by (simp add: uint_word_of_int take_bit_int_eq_self)
  show ?thesis
  proof (cases "hd f = CHR ''0''")
    case True
    then have "length f = 1" using f(1,3)
      by (cases f) auto
    then have "f = ''0''" using True
      by (cases f) auto
    then show ?thesis using u by (simp add: decVal_def digitVal_def ord_def itoa_zero)
  next
    case False
    from itoa_decVal_nonzero [OF f(1,2) False] show ?thesis using u by simp
  qed
qed

lemma splitOn_nonempty: "splitOn c s \<noteq> []"
  by (induction s) (auto split: list.splits)

lemma Join_splitOn: "Join (splitOn c s) [c] = s"
proof (induction s)
  case Nil
  show ?case by simp
next
  case (Cons x xs)
  obtain f fs where ffs: "splitOn c xs = f # fs"
    using splitOn_nonempty [of c xs] by (cases "splitOn c xs") auto
  show ?case
  proof (cases "x = c")
    case True
    then show ?thesis using Cons.IH ffs by simp
  next
    case False
    then show ?thesis using Cons.IH ffs by (cases fs) simp_all
  qed
qed

lemma parseIPv4Fields_text:
  assumes "parseIPv4Fields s = Some b"
  shows "dotted b = s"
proof -
  let ?fs = "splitOn (CHR ''.'') s"
  from assms have all: "list_all (\<lambda>f. f \<noteq> None) (map ipv4Field ?fs)"
    and b: "b = map the (map ipv4Field ?fs)"
    by (auto simp: parseIPv4Fields_def Let_def split: if_splits)
  have "map (\<lambda>x. itoa (uint x)) b = ?fs"
    unfolding b
  proof (rule nth_equalityI)
    show "length (map (\<lambda>x. itoa (uint x)) (map the (map ipv4Field ?fs))) = length ?fs"
      by simp
  next
    fix i
    assume "i < length (map (\<lambda>x. itoa (uint x)) (map the (map ipv4Field ?fs)))"
    then have i: "i < length ?fs" by simp
    then have "ipv4Field (?fs ! i) \<noteq> None"
      using all by (simp add: list_all_length)
    then obtain x where x: "ipv4Field (?fs ! i) = Some x" by auto
    from ipv4Field_text [OF x] show
      "map (\<lambda>x. itoa (uint x)) (map the (map ipv4Field ?fs)) ! i = ?fs ! i"
      using i x by simp
  qed
  then show ?thesis
    by (simp add: dotted_def Join_splitOn)
qed

lemma To4_length:
  "To4 x = Some b \<Longrightarrow> length b = 4 \<and> (length x = 4 \<or> length x = 16)"
  by (auto simp: To4_def split: if_splits)

lemma IP_String_dotted:
  assumes "To4 x = Some b"
  shows "IP_String x = dotted b"
  using assms To4_length [OF assms] by (auto simp: IP_String_def)

lemma same_address_same_text:
  assumes "parseIPv4Fields expected = Some b" and "To4 x = Some b"
  shows "IP_String x = expected"
  using IP_String_dotted [OF assms(2)] parseIPv4Fields_text [OF assms(1)] by simp

text \<open>
  Claim C1. When the resolution of a request ends without error and the expected address
  is among the resolved addresses (the text of a resolved address is the expected text,
  or the expected text is a dotted-decimal literal of a resolved address), the result has
  the status \<open>MATCH\<close> and \<open>shouldPrint\<close> is false, whatever other addresses were
  resolved; nothing is printed for it, and \<open>outputWorker\<close> prints for a queue that
  holds this result exactly what it prints for the queue without it.
\<close>

theorem match_suppressed:
  assumes "resolve net request dnsTimeout forceGoogle forceCF noSystemDNS = (ips, None, s, calls)"
      and "expectedIP request \<in> set (map (\<lambda>a. IP_String (IP a)) ips) \<or>
           (\<exists>a\<in>set ips. \<exists>b. parseIPv4Fields (expectedIP request) = Some b \<and>
                                To4 (IP a) = Some b)"
  shows "status (fst (processDNSRequest net order sched request dnsTimeout forceGoogle forceCF
                        noSystemDNS verbose)) = ''MATCH'' \<and>
         \<not> shouldPrint (fst (processDNSRequest net order sched request dnsTimeout forceGoogle
                        forceCF noSystemDNS verbose)) \<and>
         printResult (fst (processDNSRequest net order sched request dnsTimeout forceGoogle
                        forceCF noSystemDNS verbose)) = [] \<and>
         outputWorker (before @ [fst (processDNSRequest net order sched request dnsTimeout
                        forceGoogle forceCF noSystemDNS verbose)] @ after) =
           outputWorker (before @ after)"
proof -
  have mem: "expectedIP request \<in> set (map (\<lambda>a. IP_String (IP a)) ips)"
    using assms(2)
  proof
    assume "expectedIP request \<in> set (map (\<lambda>a. IP_String (IP a)) ips)"
    then show ?thesis .
  next
    assume "\<exists>a\<in>set ips. \<exists>b. parseIPv4Fields (expectedIP request) = Some b \<and>
                                To4 (IP a) = Some b"
    then obtain a b where a: "a \<in> set ips"
      and b: "parseIPv4Fields (expectedIP request) = Some b" "To4 (IP a) = Some b"
      by blast
    from same_address_same_text [OF b] have "IP_String (IP a) = expectedIP request" .
    then show ?thesis using a by force
  qed
  then have ne: "ips \<noteq> []"
    by auto
  have r: "fst (processDNSRequest net order sched request dnsTimeout forceGoogle forceCF
                  noSystemDNS verbose) =
           \<lparr>line = DNSRequest.line request, shouldPrint = False, status = ''MATCH'',
            resolvedIPs = map (\<lambda>a. IP_String (IP a)) ips\<rparr>"
    using assms(1) mem ne by (simp add: processDNSRequest_def Let_def)
  show ?thesis
    unfolding r by (simp add: outputWorker_append printResult_def)
qed

text \<open>The theorem at \<open>exampleRequest\<close> on \<open>netMatch\<close>: the second strategy answers
  5.6.7.8, 1.2.3.4 and 23.32.0.1, and nothing is printed.\<close>

theorem match_suppressed_witness:
  "resolve netMatch exampleRequest (5 * Second) False False False =
     ([\<lparr>IP = [5, 6, 7, 8], Zone = []\<rparr>, \<lparr>IP = [1, 2, 3, 4], Zone = []\<rparr>,
       \<lparr>IP = [23, 32, 0, 1], Zone = []\<rparr>], None, 1,
      [CallLookupIPAddr DefaultResolver (WithTimeout Background 15000000000) ''example.com'',
       CallLookupIPAddr PreferGo (WithTimeout Background 15000000000) ''example.com'']) \<and>
   parseIPv4Fields (expectedIP exampleRequest) = Some [1, 2, 3, 4] \<and>
   To4 (IP \<lparr>IP = [1, 2, 3, 4], Zone = []\<rparr>) = Some [1, 2, 3, 4] \<and>
   status (fst (processDNSRequest netMatch (\<lambda>k. cdnProviders) [] exampleRequest (5 * Second)
                  False False False False)) = ''MATCH'' \<and>
   \<not> shouldPrint (fst (processDNSRequest netMatch (\<lambda>k. cdnProviders) [] exampleRequest
                  (5 * Second) False False False False)) \<and>
   outputWorker [fst (processDNSRequest netMatch (\<lambda>k. cdnProviders) [] exampleRequest
                  (5 * Second) False False False False)] = []"
proof -
  have h1: "resolve netMatch exampleRequest (5 * Second) False False False =
     ([\<lparr>IP = [5, 6, 7, 8], Zone = []\<rparr>, \<lparr>IP = [1, 2, 3, 4], Zone = []\<rparr>,
       \<lparr>IP = [23, 32, 0, 1], Zone = []\<rparr>], None, 1,
      [CallLookupIPAddr DefaultResolver (WithTimeout Background 15000000000) ''example.com'',
       CallLookupIPAddr PreferGo (WithTimeout Background 15000000000) ''example.com''])"
    by code_simp
  have p: "parseIPv4Fields (expectedIP exampleRequest) = Some [1, 2, 3, 4]"
    by code_simp
  have t: "To4 (IP \<lparr>IP = [1, 2, 3, 4], Zone = []\<rparr>) = Some [1, 2, 3, 4]"
    by (simp add: To4_def)
  have h2: "expectedIP exampleRequest \<in>
              set (map (\<lambda>a. IP_String (IP a))
                     [\<lparr>IP = [5, 6, 7, 8], Zone = []\<rparr>, \<lparr>IP = [1, 2, 3, 4], Zone = []\<rparr>,
                      \<lparr>IP = [23, 32, 0, 1], Zone = []\<rparr>]) \<or>
            (\<exists>a\<in>set [\<lparr>IP = [5, 6, 7, 8], Zone = []\<rparr>, \<lparr>IP = [1, 2, 3, 4], Zone = []\<rparr>,
                       \<lparr>IP = [23, 32, 0, 1], Zone = []\<rparr>].
               \<exists>b. parseIPv4Fields (expectedIP exampleRequest) = Some b \<and> To4 (IP a) = Some b)"
    using p t by (intro disjI2) simp
  show ?thesis
    using h1 p t match_suppressed [OF h1 h2, of "\<lambda>k. cdnProviders" "[]" False "[]" "[]"]
    by simp
qed

subsection \<open>Skipping the system resolver\<close>

text \<open>
  Claim C9 says that \<open>-no-system-dns\<close> omits strategy 1 only and keeps strategy 2, the
  resolver built into Go. The source adds strategies 1 and 2 inside the same
  \<open>if !noSystemDNS\<close> block, so with the flag set the built-in resolver is not in the
  chain either.
\<close>

theorem skip_system_drops_builtin_counterexample:
  "PreferGo \<notin> set (strategies (5 * Second) False False True)"
  by (simp add: strategies_def dialGoogle_def dialCloudflare_def dialQuad9_def dialOpenDNS_def)

text \<open>
  Claim C9, amended. With \<open>-no-system-dns\<close> set and no single resolver forced, strategies
  1 and 2 (the system resolver and Go's built-in resolver) are both left out; the chain is
  the remaining strategies in their order, Google, Cloudflare, Quad9 and OpenDNS, and the
  chain without the flag is these four after strategies 1 and 2.
\<close>

theorem skip_system_chain:
  "strategies dnsTimeout False False True =
     [dialGoogle dnsTimeout, dialCloudflare dnsTimeout, dialQuad9 dnsTimeout,
      dialOpenDNS dnsTimeout] \<and>
   strategies dnsTimeout False False False =
     [DefaultResolver, PreferGo] @ strategies dnsTimeout False False True"
  by (simp add: strategies_def)

subsection \<open>What the classifier returns\<close>

text \<open>The loops of \<open>detectCDN\<close>, for any order in which the map is ranged over: no
  provider when no address falls inside a block, and otherwise a provider with a block
  that holds one of the addresses. When no address falls inside the blocks of providers
  with two different names, the order does not matter.\<close>

lemma anyCidr_list_ex:
  "anyCidr cidrs parsedIP = list_ex (\<lambda>cidr. cidrContains cidr parsedIP) cidrs"
  by (induction cidrs) simp_all

lemma firstProvider_None:
  "firstProvider entries parsedIP = None \<longleftrightarrow>
     (\<forall>e\<in>set entries. \<not> anyCidr (snd e) parsedIP)"
  by (induction entries) (auto split: if_splits)

lemma firstProvider_Some:
  "firstProvider entries parsedIP = Some provider \<Longrightarrow>
     \<exists>e\<in>set entries. fst e = provider \<and> anyCidr (snd e) parsedIP"
  by (induction entries) (auto split: if_splits)

lemma rangeOver_Suc:
  "rangeOver m order \<Longrightarrow> rangeOver m (\<lambda>k. order (Suc k))"
  by (simp add: rangeOver_def)

lemma rangeOver_set:
  "rangeOver m order \<Longrightarrow> set (order k) = set m"
  by (simp add: rangeOver_def)

lemma detectCDN_none:
  assumes "rangeOver m order"
      and "\<forall>a\<in>set as. \<forall>e\<in>set m. \<not> insideProvider a e"
  shows "detectCDN order as = []"
  using assms
proof (induction as arbitrary: order)
  case Nil
  then show ?case by simp
next
  case (Cons a as)
  have rec: "detectCDN (\<lambda>k. order (Suc k)) as = []"
    using Cons.IH [OF rangeOver_Suc [OF Cons.prems(1)]] Cons.prems(2) by simp
  show ?case
  proof (cases "ParseIP a")
    case None
    then show ?thesis using rec by simp
  next
    case (Some parsedIP)
    have s0: "set (order 0) = set m"
      by (rule rangeOver_set [OF Cons.prems(1)])
    have "\<forall>e\<in>set m. \<not> anyCidr (snd e) parsedIP"
      using Cons.prems(2) Some by (simp add: insideProvider_def anyCidr_list_ex)
    then have "firstProvider (order 0) parsedIP = None"
      unfolding firstProvider_None s0 .
    then show ?thesis using Some rec by simp
  qed
qed

lemma detectCDN_some:
  assumes "rangeOver m order"
      and "\<exists>a\<in>set as. \<exists>e\<in>set m. insideProvider a e"
  shows "\<exists>e\<in>set m. (\<exists>a\<in>set as. insideProvider a e) \<and> detectCDN order as = fst e"
  using assms
proof (induction as arbitrary: order)
  case Nil
  then show ?case by simp
next
  case (Cons a as)
  show ?case
  proof (cases "\<exists>e\<in>set m. insideProvider a e")
    case True
    then obtain parsedIP where p: "ParseIP a = Some parsedIP"
      by (auto simp: insideProvider_def split: option.splits)
    have s0: "set (order 0) = set m"
      by (rule rangeOver_set [OF Cons.prems(1)])
    from True p have "\<exists>e\<in>set m. anyCidr (snd e) parsedIP"
      by (simp add: insideProvider_def anyCidr_list_ex)
    then have "firstProvider (order 0) parsedIP \<noteq> None"
      unfolding firstProvider_None s0 by simp
    then obtain provider where f: "firstProvider (order 0) parsedIP = Some provider"
      by blast
    from firstProvider_Some [OF f] obtain e where
      e: "e \<in> set (order 0)" "fst e = provider" "anyCidr (snd e) parsedIP"
      by blast
    have "e \<in> set m" using e(1) s0 by simp
    moreover have "insideProvider a e"
      using e(3) p by (simp add: insideProvider_def anyCidr_list_ex)
    moreover have "detectCDN order (a # as) = fst e"
      using p f e(2) by simp
    ultimately show ?thesis by auto
  next
    case False
    then have rest: "\<exists>a\<in>set as. \<exists>e\<in>set m. insideProvider a e"
      using Cons.prems(2) by auto
    from Cons.IH [OF rangeOver_Suc [OF Cons.prems(1)] rest] obtain e where
      e: "e \<in> set m" "\<exists>a\<in>set as. insideProvider a e" "detectCDN (\<lambda>k. order (Suc k)) as = fst e"
      by blast
    have skip: "detectCDN order (a # as) = detectCDN (\<lambda>k. order (Suc k)) as"
    proof (cases "ParseIP a")
      case None
      then show ?thesis by simp
    next
      case (Some parsedIP)
      have s0: "set (order 0) = set m"
        by (rule rangeOver_set [OF Cons.prems(1)])
      have "\<forall>e\<in>set m. \<not> anyCidr (snd e) parsedIP"
        using False Some by (simp add: insideProvider_def anyCidr_list_ex)
      then have "firstProvider (order 0) parsedIP = None"
        unfolding firstProvider_None s0 .
      then show ?thesis using Some by simp
    qed
    show ?thesis using e skip by auto
  qed
qed


lemma providers_distinct: "distinct cdnProviders"
  by (simp add: cdnProviders_def)

lemma rangeOver_source_order: "rangeOver cdnProviders (\<lambda>k. cdnProviders)"
  by (simp add: rangeOver_def providers_distinct)


lemma provider_names_nonempty: "\<forall>e\<in>set cdnProviders. fst e \<noteq> []"
  by (simp add: cdnProviders_def)

lemma viaTag_not_verbose: "viaTag False s = []"
  by (simp add: viaTag_def)

lemma mismatch_result:
  assumes "resolve net request dnsTimeout forceGoogle forceCF noSystemDNS = (ips, None, s, calls)"
      and "ips \<noteq> []"
      and "expectedIP request \<notin> set (map (\<lambda>a. IP_String (IP a)) ips)"
  shows "fst (processDNSRequest net order sched request dnsTimeout forceGoogle forceCF
                noSystemDNS verbose) =
         \<lparr>line = DNSRequest.line request, shouldPrint = True,
          status = mismatchStatus (detectCDN order (map (\<lambda>a. IP_String (IP a)) ips)) @
                   viaTag verbose s,
          resolvedIPs = fst (performReverseLookups net sched
                               (WithTimeout Background (dnsTimeout * 3))
                               (map (\<lambda>a. IP_String (IP a)) ips))\<rparr>"
  using assms by (simp add: processDNSRequest_def Let_def split: prod.splits)




subsection \<open>Classifying a mismatch\<close>

text \<open>
  Claim C3. When the resolution ends without error with a non-empty address list that
  does not contain the expected address, and at least one resolved address falls inside
  a block of the table, the status is \<open>CDN_MISMATCH_\<close> followed by the upper-case name of
  a provider one of whose blocks holds a resolved address; otherwise the status is
  \<open>IP_MISMATCH\<close>. This holds for every order in which Go ranges over the table. In
  verbose mode the status is followed by the strategy tag \<open>viaTag\<close>, which is empty
  when verbose mode is off.
\<close>

theorem mismatch_classification:
  assumes "rangeOver cdnProviders order"
      and "resolve net request dnsTimeout forceGoogle forceCF noSystemDNS = (ips, None, s, calls)"
      and "ips \<noteq> []"
      and "expectedIP request \<notin> set (map (\<lambda>a. IP_String (IP a)) ips)"
  shows "(if \<exists>a\<in>set (map (\<lambda>a. IP_String (IP a)) ips). \<exists>e\<in>set cdnProviders. insideProvider a e
          then \<exists>e\<in>set cdnProviders.
                 (\<exists>a\<in>set (map (\<lambda>a. IP_String (IP a)) ips). insideProvider a e) \<and>
                 status (fst (processDNSRequest net order sched request dnsTimeout forceGoogle
                                forceCF noSystemDNS verbose)) =
                   ''CDN_MISMATCH_'' @ ToUpper (fst e) @ viaTag verbose s
          else status (fst (processDNSRequest net order sched request dnsTimeout forceGoogle
                              forceCF noSystemDNS verbose)) =
                 ''IP_MISMATCH'' @ viaTag verbose s) \<and>
         viaTag False s = []"
proof -
  let ?strs = "map (\<lambda>a. IP_String (IP a)) ips"
  let ?r = "fst (processDNSRequest net order sched request dnsTimeout forceGoogle forceCF
                   noSystemDNS verbose)"
  have st: "status ?r = mismatchStatus (detectCDN order ?strs) @ viaTag verbose s"
    by (simp add: mismatch_result [OF assms(2,3,4)])
  show ?thesis
  proof (cases "\<exists>a\<in>set ?strs. \<exists>e\<in>set cdnProviders. insideProvider a e")
    case True
    from detectCDN_some [OF assms(1) True] obtain e where
      e: "e \<in> set cdnProviders" "\<exists>a\<in>set ?strs. insideProvider a e" "detectCDN order ?strs = fst e"
      by blast
    have "fst e \<noteq> []"
      using provider_names_nonempty e(1) by blast
    then have "status ?r = ''CDN_MISMATCH_'' @ ToUpper (fst e) @ viaTag verbose s"
      using st e(3) by (simp add: mismatchStatus_def)
    then have "\<exists>e\<in>set cdnProviders. (\<exists>a\<in>set ?strs. insideProvider a e) \<and>
                 status ?r = ''CDN_MISMATCH_'' @ ToUpper (fst e) @ viaTag verbose s"
      using e(1,2) by blast
    then show ?thesis
      using True by (simp only: if_True viaTag_not_verbose simp_thms)
  next
    case False
    then have "\<forall>a\<in>set ?strs. \<forall>e\<in>set cdnProviders. \<not> insideProvider a e"
      by blast
    from detectCDN_none [OF assms(1) this] have "status ?r = ''IP_MISMATCH'' @ viaTag verbose s"
      using st by (simp add: mismatchStatus_def)
    then show ?thesis
      using False by (simp only: if_False viaTag_not_verbose simp_thms)
  qed
qed

text \<open>The theorem on \<open>netAkamai\<close>: the answer 8.8.8.8, 23.32.0.1 for the expected
  address 1.2.3.4 is classified \<open>CDN_MISMATCH_AKAMAI\<close>.\<close>

theorem mismatch_classification_witness:
  "rangeOver cdnProviders (\<lambda>k. cdnProviders) \<and>
   resolve netAkamai exampleRequest (5 * Second) False False False =
     ([\<lparr>IP = [8, 8, 8, 8], Zone = []\<rparr>, \<lparr>IP = [23, 32, 0, 1], Zone = []\<rparr>], None, 0,
      [CallLookupIPAddr DefaultResolver (WithTimeout Background 15000000000) ''example.com'']) \<and>
   expectedIP exampleRequest \<notin>
     set (map (\<lambda>a. IP_String (IP a))
            [\<lparr>IP = [8, 8, 8, 8], Zone = []\<rparr>, \<lparr>IP = [23, 32, 0, 1], Zone = []\<rparr>]) \<and>
   status (fst (processDNSRequest netAkamai (\<lambda>k. cdnProviders) [Received 1, Received 0]
                  exampleRequest (5 * Second) False False False False)) = ''CDN_MISMATCH_AKAMAI''"
proof -
  have h1: "rangeOver cdnProviders (\<lambda>k. cdnProviders)"
    by (rule rangeOver_source_order)
  have h2: "resolve netAkamai exampleRequest (5 * Second) False False False =
     ([\<lparr>IP = [8, 8, 8, 8], Zone = []\<rparr>, \<lparr>IP = [23, 32, 0, 1], Zone = []\<rparr>], None, 0,
      [CallLookupIPAddr DefaultResolver (WithTimeout Background 15000000000) ''example.com''])"
    by code_simp
  have h3: "[\<lparr>IP = [8, 8, 8, 8], Zone = []\<rparr>, \<lparr>IP = [23, 32, 0, 1 :: byte], Zone = []\<rparr>] \<noteq> []"
    by simp
  have h4: "expectedIP exampleRequest \<notin>
     set (map (\<lambda>a. IP_String (IP a))
            [\<lparr>IP = [8, 8, 8, 8], Zone = []\<rparr>, \<lparr>IP = [23, 32, 0, 1], Zone = []\<rparr>])"
    by code_simp
  have ev: "status (fst (processDNSRequest netAkamai (\<lambda>k. cdnProviders) [Received 1, Received 0]
                  exampleRequest (5 * Second) False False False False)) = ''CDN_MISMATCH_AKAMAI''"
    by code_simp
  show ?thesis
    using h1 h2 h4 ev
      mismatch_classification [OF h1 h2 h3 h4, of "[Received 1, Received 0]" False]
    by blast
qed

subsection \<open>The order of the providers\<close>




subsection \<open>Lists of IPv6 addresses\<close>

text \<open>Every block of the table parses to an IPv4 network (four bytes of address and of
  mask), and \<open>Contains\<close> is false for an address without a 4-byte form on such a
  network.\<close>

lemma table_blocks_ipv4:
  "\<forall>e\<in>set cdnProviders. \<forall>c\<in>set (snd e).
     \<exists>n. ParseCIDR c = Some n \<and> length (netIP n) = 4 \<and> length (Mask n) = 4"
proof -
  have "list_all (\<lambda>e. list_all (\<lambda>c. ParseCIDR c \<noteq> None \<and>
          length (netIP (the (ParseCIDR c))) = 4 \<and> length (Mask (the (ParseCIDR c))) = 4)
          (snd e)) cdnProviders"
    by code_simp
  then show ?thesis
    by (fastforce simp: list_all_iff)
qed

lemma ipv4_net_excludes_ipv6:
  assumes "length (netIP n) = 4" and "length (Mask n) = 4" and "To4 parsedIP = None"
  shows "\<not> Contains n parsedIP"
proof -
  have l: "length parsedIP \<noteq> 4"
    using assms(3) by (auto simp: To4_def split: if_splits)
  have "networkNumberAndMask n = Some (netIP n, Mask n)"
    using assms(1,2) by (simp add: networkNumberAndMask_def To4_def)
  then show ?thesis
    using assms(1,3) l by (simp add: Contains_def)
qed

lemma ipv6_outside_table:
  assumes "isIPv6 a" and "e \<in> set cdnProviders"
  shows "\<not> insideProvider a e"
proof -
  from assms(1) obtain parsedIP where p: "ParseIP a = Some parsedIP" "To4 parsedIP = None"
    by (auto simp: isIPv6_def split: option.splits)
  have "\<not> cidrContains c parsedIP" if "c \<in> set (snd e)" for c
  proof -
    from table_blocks_ipv4 assms(2) that obtain n where
      n: "ParseCIDR c = Some n" "length (netIP n) = 4" "length (Mask n) = 4"
      by blast
    show ?thesis
      using ipv4_net_excludes_ipv6 [OF n(2,3) p(2)] n(1) by (simp add: cidrContains_def)
  qed
  then show ?thesis
    using p(1) by (simp add: insideProvider_def list_ex_iff)
qed

lemma formatIP_prefix:
  "take (length a) (formatIP reverseMap a) = a"
  by (simp add: formatIP_def split: option.splits)

lemma performReverseLookups_length:
  "length (fst (performReverseLookups net sched ctx as)) = length as"
  by (simp add: performReverseLookups_def Let_def)

lemma performReverseLookups_prefix:
  assumes "i < length as"
  shows "take (length (as ! i)) (fst (performReverseLookups net sched ctx as) ! i) = as ! i"
  using assms by (simp add: performReverseLookups_def Let_def formatIP_prefix)

text \<open>
  Claim C10. The table holds IPv4 blocks only, so no IPv6 address falls inside a table
  entry. When the resolution ends without error, the expected address is not among the
  resolved ones and every resolved address is an IPv6 address, the classifier returns no
  provider, whatever the order of the map; the status is \<open>IP_MISMATCH\<close> (followed by the
  strategy tag in verbose mode, which is empty otherwise) and not a \<open>CDN_MISMATCH\<close>; the
  result is printed, and its address list has one entry per resolved address, each
  starting with the text of that address.
\<close>

theorem ipv6_only_plain_mismatch:
  assumes "rangeOver cdnProviders order"
      and "resolve net request dnsTimeout forceGoogle forceCF noSystemDNS = (ips, None, s, calls)"
      and "ips \<noteq> []"
      and "expectedIP request \<notin> set (map (\<lambda>a. IP_String (IP a)) ips)"
      and "\<forall>a\<in>set ips. isIPv6 (IP_String (IP a))"
  shows "(\<forall>a. isIPv6 a \<longrightarrow> (\<forall>e\<in>set cdnProviders. \<not> insideProvider a e)) \<and>
         detectCDN order (map (\<lambda>a. IP_String (IP a)) ips) = [] \<and>
         status (fst (processDNSRequest net order sched request dnsTimeout forceGoogle forceCF
                        noSystemDNS verbose)) = ''IP_MISMATCH'' @ viaTag verbose s \<and>
         viaTag False s = [] \<and>
         shouldPrint (fst (processDNSRequest net order sched request dnsTimeout forceGoogle
                        forceCF noSystemDNS verbose)) \<and>
         length (resolvedIPs (fst (processDNSRequest net order sched request dnsTimeout
                        forceGoogle forceCF noSystemDNS verbose))) = length ips \<and>
         (\<forall>i<length ips.
            take (length (IP_String (IP (ips ! i))))
              (resolvedIPs (fst (processDNSRequest net order sched request dnsTimeout
                        forceGoogle forceCF noSystemDNS verbose)) ! i) =
            IP_String (IP (ips ! i)))"
proof -
  let ?strs = "map (\<lambda>a. IP_String (IP a)) ips"
  let ?r = "fst (processDNSRequest net order sched request dnsTimeout forceGoogle forceCF
                   noSystemDNS verbose)"
  have r: "?r = \<lparr>line = DNSRequest.line request, shouldPrint = True,
          status = mismatchStatus (detectCDN order ?strs) @ viaTag verbose s,
          resolvedIPs = fst (performReverseLookups net sched
                               (WithTimeout Background (dnsTimeout * 3)) ?strs)\<rparr>"
    by (rule mismatch_result [OF assms(2,3,4)])
  have out: "\<forall>a\<in>set ?strs. \<forall>e\<in>set cdnProviders. \<not> insideProvider a e"
    using assms(5) ipv6_outside_table by auto
  have none: "detectCDN order ?strs = []"
    by (rule detectCDN_none [OF assms(1) out])
  have c1: "\<forall>a. isIPv6 a \<longrightarrow> (\<forall>e\<in>set cdnProviders. \<not> insideProvider a e)"
    using ipv6_outside_table by blast
  have c3: "status ?r = ''IP_MISMATCH'' @ viaTag verbose s"
    unfolding r by (simp add: none mismatchStatus_def)
  have c5: "shouldPrint ?r"
    unfolding r by simp
  have c6: "length (resolvedIPs ?r) = length ips"
    unfolding r by (simp add: performReverseLookups_length)
  have c7: "\<forall>i<length ips. take (length (IP_String (IP (ips ! i)))) (resolvedIPs ?r ! i) =
              IP_String (IP (ips ! i))"
  proof (intro allI impI)
    fix i assume i: "i < length ips"
    then have "i < length ?strs" by simp
    from performReverseLookups_prefix [OF this] show
      "take (length (IP_String (IP (ips ! i)))) (resolvedIPs ?r ! i) = IP_String (IP (ips ! i))"
      unfolding r using i by simp
  qed
  show ?thesis
    using c1 none c3 viaTag_not_verbose c5 c6 c7 by blast
qed

text \<open>The theorem on \<open>netIPv6\<close>: the answer 2600:1408:c400:4d::1749:cf45 gives
  \<open>IP_MISMATCH\<close> with that address in the list.\<close>

theorem ipv6_only_plain_mismatch_witness:
  "rangeOver cdnProviders (\<lambda>k. cdnProviders) \<and>
   resolve netIPv6 exampleRequest (5 * Second) False False False =
     ([\<lparr>IP = [0x26, 0, 0x14, 8, 0xc4, 0, 0, 0x4d, 0, 0, 0, 0, 0x17, 0x49, 0xcf, 0x45],
        Zone = []\<rparr>], None, 0,
      [CallLookupIPAddr DefaultResolver (WithTimeout Background 15000000000) ''example.com'']) \<and>
   isIPv6 ''2600:1408:c400:4d::1749:cf45'' \<and>
   fst (processDNSRequest netIPv6 (\<lambda>k. cdnProviders) [Received 0] exampleRequest (5 * Second)
          False False False False) =
     \<lparr>line = ''1.2.3.4:443 [example.com]'', shouldPrint = True, status = ''IP_MISMATCH'',
      resolvedIPs = [''2600:1408:c400:4d::1749:cf45'']\<rparr>"
proof -
  have h1: "rangeOver cdnProviders (\<lambda>k. cdnProviders)"
    by (rule rangeOver_source_order)
  have h2: "resolve netIPv6 exampleRequest (5 * Second) False False False =
     ([\<lparr>IP = [0x26, 0, 0x14, 8, 0xc4, 0, 0, 0x4d, 0, 0, 0, 0, 0x17, 0x49, 0xcf, 0x45],
        Zone = []\<rparr>], None, 0,
      [CallLookupIPAddr DefaultResolver (WithTimeout Background 15000000000) ''example.com''])"
    by code_simp
  have h3: "[\<lparr>IP = [0x26, 0, 0x14, 8, 0xc4, 0, 0, 0x4d, 0, 0, 0, 0, 0x17, 0x49, 0xcf, 0x45 :: byte],
        Zone = []\<rparr>] \<noteq> []"
    by simp
  have h4: "expectedIP exampleRequest \<notin> set (map (\<lambda>a. IP_String (IP a))
      [\<lparr>IP = [0x26, 0, 0x14, 8, 0xc4, 0, 0, 0x4d, 0, 0, 0, 0, 0x17, 0x49, 0xcf, 0x45],
        Zone = []\<rparr>])"
    by code_simp
  have h5: "\<forall>a\<in>set [\<lparr>IP = [0x26, 0, 0x14, 8, 0xc4, 0, 0, 0x4d, 0, 0, 0, 0, 0x17, 0x49, 0xcf, 0x45],
        Zone = []\<rparr>]. isIPv6 (IP_String (IP a))"
    by code_simp
  have v6: "isIPv6 ''2600:1408:c400:4d::1749:cf45''"
    by code_simp
  have ev: "fst (processDNSRequest netIPv6 (\<lambda>k. cdnProviders) [Received 0] exampleRequest
                   (5 * Second) False False False False) =
     \<lparr>line = ''1.2.3.4:443 [example.com]'', shouldPrint = True, status = ''IP_MISMATCH'',
      resolvedIPs = [''2600:1408:c400:4d::1749:cf45'']\<rparr>"
    by code_simp
  show ?thesis
    using h1 h2 v6 ev
      ipv6_only_plain_mismatch [OF h1 h2 h3 h4 h5, of "[Received 0]" False]
    by blast
qed

subsection \<open>The reverse-lookup enricher\<close>








subsection \<open>The fallback lookup\<close>

text \<open>When every strategy fails, the loop ends with the answer of the last strategy and
  has called all of them. Every call that \<open>processDNSRequest\<close> makes carries a context
  with a deadline, except the call of \<open>LookupHost\<close>.\<close>

lemma tryStrategies_all_fail:
  assumes "\<forall>r\<in>set rs. \<not> (snd (LookupIPAddr net r ctx d) = None \<and>
                            0 < length (fst (LookupIPAddr net r ctx d)))"
      and "rs \<noteq> []"
  shows "tryStrategies net ctx d rs i (ips, err, s, calls) =
           (fst (LookupIPAddr net (last rs) ctx d), snd (LookupIPAddr net (last rs) ctx d), s,
            calls @ map (\<lambda>r. CallLookupIPAddr r ctx d) rs)"
  using assms
proof (induction rs arbitrary: i ips err calls)
  case Nil
  then show ?case by simp
next
  case (Cons r rs)
  obtain ips' err' where l: "LookupIPAddr net r ctx d = (ips', err')"
    by (cases "LookupIPAddr net r ctx d")
  have fail: "\<not> (err' = None \<and> 0 < length ips')"
    using Cons.prems(1) l by simp
  show ?case
  proof (cases "rs = []")
    case True
    then show ?thesis using l fail by auto
  next
    case False
    have "\<forall>r\<in>set rs. \<not> (snd (LookupIPAddr net r ctx d) = None \<and>
                            0 < length (fst (LookupIPAddr net r ctx d)))"
      using Cons.prems(1) by simp
    from Cons.IH [OF this False] show ?thesis
      using l fail False by simp
  qed
qed

lemma strategies_nonempty: "strategies dnsTimeout forceGoogle forceCF noSystemDNS \<noteq> []"
  by (simp add: strategies_def)

lemma tryStrategies_calls:
  "set (snd (snd (snd (tryStrategies net ctx d rs i (ips, err, s, calls))))) \<subseteq>
     set calls \<union> (\<lambda>r. CallLookupIPAddr r ctx d) ` set rs"
proof (induction rs arbitrary: i ips err s calls)
  case Nil
  then show ?case by simp
next
  case (Cons r rs)
  obtain ips' err' where l: "LookupIPAddr net r ctx d = (ips', err')"
    by (cases "LookupIPAddr net r ctx d")
  show ?case
  proof (cases "err' = None \<and> 0 < length ips'")
    case True
    then show ?thesis using l by auto
  next
    case False
    have "set (snd (snd (snd (tryStrategies net ctx d rs (i + 1)
                 (ips', err', s, calls @ [CallLookupIPAddr r ctx d]))))) \<subseteq>
          set (calls @ [CallLookupIPAddr r ctx d]) \<union> (\<lambda>r. CallLookupIPAddr r ctx d) ` set rs"
      by (rule Cons.IH)
    then show ?thesis using l False by auto
  qed
qed

lemma resolve_calls:
  assumes "resolve net request dnsTimeout forceGoogle forceCF noSystemDNS = (ips, err, s, calls)"
      and "c \<in> set calls"
  shows "hasDeadline (callContext c) \<or> c = CallLookupHost Background (domain request)"
proof -
  let ?ctx = "WithTimeout Background (dnsTimeout * 3)"
  let ?rs = "strategies dnsTimeout forceGoogle forceCF noSystemDNS"
  obtain ips0 err0 s0 calls0 where
    t: "tryStrategies net ?ctx (domain request) ?rs 0 ([], None, - 1, []) = (ips0, err0, s0, calls0)"
    by (cases "tryStrategies net ?ctx (domain request) ?rs 0 ([], None, - 1, [])") auto
  have "set calls0 \<subseteq> (\<lambda>r. CallLookupIPAddr r ?ctx (domain request)) ` set ?rs"
    using tryStrategies_calls [of net ?ctx "domain request" ?rs 0 "[]" None "- 1" "[]"] t by simp
  then have c0: "\<forall>x\<in>set calls0. hasDeadline (callContext x)"
    by auto
  have "set calls \<subseteq> set calls0 \<union> {CallLookupHost Background (domain request)}"
    using assms(1) by (auto simp: resolve_def Let_def t split: prod.splits if_splits)
  then show ?thesis
    using c0 assms(2) by auto
qed

lemma processDNSRequest_calls:
  assumes "c \<in> set (snd (processDNSRequest net order sched request dnsTimeout forceGoogle
                             forceCF noSystemDNS verbose))"
  shows "hasDeadline (callContext c) \<or> c = CallLookupHost Background (domain request)"
proof -
  obtain ips err s calls where
    r: "resolve net request dnsTimeout forceGoogle forceCF noSystemDNS = (ips, err, s, calls)"
    by (cases "resolve net request dnsTimeout forceGoogle forceCF noSystemDNS") auto
  have "c \<in> set calls \<or> (\<exists>ctx a. c = CallLookupAddr (WithTimeout ctx (2 * Second)) a)"
    using assms r
    by (auto simp: processDNSRequest_def performReverseLookups_def Let_def
             split: prod.splits if_splits)
  then show ?thesis
    using resolve_calls [OF r] by auto
qed

text \<open>
  Claim C2 says that whenever every strategy fails, an answer of zero addresses without
  error counting as a failure, the fallback lookup is attempted. The source guards the
  fallback with \<open>if err != nil\<close>, and \<open>err\<close> is the error of the last strategy tried.
  The theorem states what the code does when every strategy fails and the last one
  answers with no address and no error: \<open>processDNSRequest\<close> returns \<open>DNS_FAILURE\<close>
  after calling the strategies only; \<open>LookupHost\<close> is not called.
\<close>

theorem fallback_skipped_after_empty_answer:
  assumes "\<forall>r\<in>set (strategies dnsTimeout forceGoogle forceCF noSystemDNS).
             \<not> (snd (LookupIPAddr net r (WithTimeout Background (dnsTimeout * 3))
                        (domain request)) = None \<and>
                0 < length (fst (LookupIPAddr net r (WithTimeout Background (dnsTimeout * 3))
                                   (domain request))))"
      and "LookupIPAddr net (last (strategies dnsTimeout forceGoogle forceCF noSystemDNS))
             (WithTimeout Background (dnsTimeout * 3)) (domain request) = ([], None)"
  shows "processDNSRequest net order sched request dnsTimeout forceGoogle forceCF noSystemDNS
           verbose =
         (\<lparr>line = DNSRequest.line request, shouldPrint = True, status = ''DNS_FAILURE'',
           resolvedIPs = []\<rparr>,
          map (\<lambda>r. CallLookupIPAddr r (WithTimeout Background (dnsTimeout * 3)) (domain request))
            (strategies dnsTimeout forceGoogle forceCF noSystemDNS))"
proof -
  let ?ctx = "WithTimeout Background (dnsTimeout * 3)"
  let ?rs = "strategies dnsTimeout forceGoogle forceCF noSystemDNS"
  have t: "tryStrategies net ?ctx (domain request) ?rs 0 ([], None, - 1, []) =
             ([], None, - 1, map (\<lambda>r. CallLookupIPAddr r ?ctx (domain request)) ?rs)"
    using tryStrategies_all_fail [OF assms(1) strategies_nonempty, of 0 "[]" None "- 1" "[]"]
      assms(2) by simp
  have "resolve net request dnsTimeout forceGoogle forceCF noSystemDNS =
          ([], None, - 1, map (\<lambda>r. CallLookupIPAddr r ?ctx (domain request)) ?rs)"
    by (simp add: resolve_def Let_def t)
  then show ?thesis
    by (simp add: processDNSRequest_def)
qed

text \<open>The theorem on \<open>netEmptyAnswer\<close> with \<open>-force-google\<close>: one call to Google's
  resolver, then \<open>DNS_FAILURE\<close>, although \<open>LookupHost\<close> would have found an address.\<close>

theorem fallback_skipped_after_empty_answer_witness:
  "LookupIPAddr netEmptyAnswer (last (strategies (5 * Second) True False False))
     (WithTimeout Background (5 * Second * 3)) (domain exampleRequest) = ([], None) \<and>
   LookupHost netEmptyAnswer Background (domain exampleRequest) = ([''93.184.216.34''], None) \<and>
   processDNSRequest netEmptyAnswer (\<lambda>k. cdnProviders) [] exampleRequest (5 * Second)
     True False False False =
     (\<lparr>line = ''1.2.3.4:443 [example.com]'', shouldPrint = True, status = ''DNS_FAILURE'',
       resolvedIPs = []\<rparr>,
      [CallLookupIPAddr (PreferGoDial 5000000000 ''8.8.8.8:53'')
         (WithTimeout Background 15000000000) ''example.com''])"
proof -
  have h1: "\<forall>r\<in>set (strategies (5 * Second) True False False).
             \<not> (snd (LookupIPAddr netEmptyAnswer r (WithTimeout Background (5 * Second * 3))
                        (domain exampleRequest)) = None \<and>
                0 < length (fst (LookupIPAddr netEmptyAnswer r
                                   (WithTimeout Background (5 * Second * 3))
                                   (domain exampleRequest))))"
    by (simp add: netEmptyAnswer_def)
  have h2: "LookupIPAddr netEmptyAnswer (last (strategies (5 * Second) True False False))
     (WithTimeout Background (5 * Second * 3)) (domain exampleRequest) = ([], None)"
    by (simp add: netEmptyAnswer_def)
  have h3: "LookupHost netEmptyAnswer Background (domain exampleRequest) =
              ([''93.184.216.34''], None)"
    by (simp add: netEmptyAnswer_def)
  show ?thesis
    using h2 h3
      fallback_skipped_after_empty_answer [OF h1 h2, of "\<lambda>k. cdnProviders" "[]" False]
    by (simp add: strategies_def dialGoogle_def exampleRequest_def Second_def)
qed

text \<open>
  Claim C8 says that every network operation of a request, the fallback lookup
  included, is invoked under a deadline of its own. The strategies are called with the
  context of \<open>processDNSRequest\<close> and the reverse lookups with a context derived from
  it, but the fallback is \<open>net.LookupHost (request.domain)\<close>, which runs under
  \<open>context.Background ()\<close>. The theorem states what the code does when every strategy
  fails and the last one returns an error: the fallback is called with the background
  context, which has no deadline, and it is the only call without one.
\<close>

theorem fallback_without_deadline:
  assumes "\<forall>r\<in>set (strategies dnsTimeout forceGoogle forceCF noSystemDNS).
             \<not> (snd (LookupIPAddr net r (WithTimeout Background (dnsTimeout * 3))
                        (domain request)) = None \<and>
                0 < length (fst (LookupIPAddr net r (WithTimeout Background (dnsTimeout * 3))
                                   (domain request))))"
      and "snd (LookupIPAddr net (last (strategies dnsTimeout forceGoogle forceCF noSystemDNS))
                  (WithTimeout Background (dnsTimeout * 3)) (domain request)) \<noteq> None"
  shows "CallLookupHost Background (domain request) \<in>
           set (snd (processDNSRequest net order sched request dnsTimeout forceGoogle forceCF
                       noSystemDNS verbose)) \<and>
         \<not> hasDeadline (callContext (CallLookupHost Background (domain request))) \<and>
         (\<forall>c\<in>set (snd (processDNSRequest net order sched request dnsTimeout forceGoogle
                            forceCF noSystemDNS verbose)).
            c \<noteq> CallLookupHost Background (domain request) \<longrightarrow> hasDeadline (callContext c))"
proof -
  let ?ctx = "WithTimeout Background (dnsTimeout * 3)"
  let ?rs = "strategies dnsTimeout forceGoogle forceCF noSystemDNS"
  let ?d = "domain request"
  obtain ips0 e0 where l: "LookupIPAddr net (last ?rs) ?ctx ?d = (ips0, Some e0)"
    using assms(2) by (cases "LookupIPAddr net (last ?rs) ?ctx ?d") auto
  have t: "tryStrategies net ?ctx ?d ?rs 0 ([], None, - 1, []) =
             (ips0, Some e0, - 1, map (\<lambda>r. CallLookupIPAddr r ?ctx ?d) ?rs)"
    using tryStrategies_all_fail [OF assms(1) strategies_nonempty, of 0 "[]" None "- 1" "[]"] l
    by simp
  obtain ips1 err1 s1 calls1 where
    r: "resolve net request dnsTimeout forceGoogle forceCF noSystemDNS = (ips1, err1, s1, calls1)"
    by (cases "resolve net request dnsTimeout forceGoogle forceCF noSystemDNS") auto
  have "CallLookupHost Background ?d \<in> set calls1"
    using r by (auto simp: resolve_def Let_def t split: prod.splits if_splits)
  then have a: "CallLookupHost Background ?d \<in>
           set (snd (processDNSRequest net order sched request dnsTimeout forceGoogle forceCF
                       noSystemDNS verbose))"
    using r by (auto simp: processDNSRequest_def Let_def split: prod.splits)
  have b: "\<not> hasDeadline (callContext (CallLookupHost Background ?d))"
    by simp
  have c: "\<forall>c\<in>set (snd (processDNSRequest net order sched request dnsTimeout forceGoogle
                            forceCF noSystemDNS verbose)).
            c \<noteq> CallLookupHost Background ?d \<longrightarrow> hasDeadline (callContext c)"
  proof (intro ballI impI)
    fix c
    assume m: "c \<in> set (snd (processDNSRequest net order sched request dnsTimeout forceGoogle
                            forceCF noSystemDNS verbose))"
      and n: "c \<noteq> CallLookupHost Background ?d"
    from processDNSRequest_calls [OF m] have
      "hasDeadline (callContext c) \<or> c = CallLookupHost Background ?d" .
    then show "hasDeadline (callContext c)"
      using n by (elim disjE) simp_all
  qed
  show ?thesis
    by (rule conjI [OF a conjI [OF b c]])
qed

text \<open>The theorem on \<open>netDown\<close>: the six strategies are called under the context with
  the deadline, then \<open>LookupHost\<close> under the background context.\<close>

theorem fallback_without_deadline_witness:
  "snd (LookupIPAddr netDown (last (strategies (5 * Second) False False False))
          (WithTimeout Background (5 * Second * 3)) (domain exampleRequest)) \<noteq> None \<and>
   snd (processDNSRequest netDown (\<lambda>k. cdnProviders) [] exampleRequest (5 * Second)
          False False False False) =
     [CallLookupIPAddr DefaultResolver (WithTimeout Background 15000000000) ''example.com'',
      CallLookupIPAddr PreferGo (WithTimeout Background 15000000000) ''example.com'',
      CallLookupIPAddr (PreferGoDial 5000000000 ''8.8.8.8:53'')
        (WithTimeout Background 15000000000) ''example.com'',
      CallLookupIPAddr (PreferGoDial 5000000000 ''1.1.1.1:53'')
        (WithTimeout Background 15000000000) ''example.com'',
      CallLookupIPAddr (PreferGoDial 5000000000 ''9.9.9.9:53'')
        (WithTimeout Background 15000000000) ''example.com'',
      CallLookupIPAddr (PreferGoDial 5000000000 ''208.67.222.222:53'')
        (WithTimeout Background 15000000000) ''example.com'',
      CallLookupHost Background ''example.com''] \<and>
   \<not> hasDeadline (callContext (CallLookupHost Background ''example.com''))"
proof -
  have h1: "\<forall>r\<in>set (strategies (5 * Second) False False False).
             \<not> (snd (LookupIPAddr netDown r (WithTimeout Background (5 * Second * 3))
                        (domain exampleRequest)) = None \<and>
                0 < length (fst (LookupIPAddr netDown r (WithTimeout Background (5 * Second * 3))
                                   (domain exampleRequest))))"
    by (simp add: netDown_def)
  have h2: "snd (LookupIPAddr netDown (last (strategies (5 * Second) False False False))
          (WithTimeout Background (5 * Second * 3)) (domain exampleRequest)) \<noteq> None"
    by (simp add: netDown_def)
  have ev: "snd (processDNSRequest netDown (\<lambda>k. cdnProviders) [] exampleRequest (5 * Second)
          False False False False) =
     [CallLookupIPAddr DefaultResolver (WithTimeout Background 15000000000) ''example.com'',
      CallLookupIPAddr PreferGo (WithTimeout Background 15000000000) ''example.com'',
      CallLookupIPAddr (PreferGoDial 5000000000 ''8.8.8.8:53'')
        (WithTimeout Background 15000000000) ''example.com'',
      CallLookupIPAddr (PreferGoDial 5000000000 ''1.1.1.1:53'')
        (WithTimeout Background 15000000000) ''example.com'',
      CallLookupIPAddr (PreferGoDial 5000000000 ''9.9.9.9:53'')
        (WithTimeout Background 15000000000) ''example.com'',
      CallLookupIPAddr (PreferGoDial 5000000000 ''208.67.222.222:53'')
        (WithTimeout Background 15000000000) ''example.com'',
      CallLookupHost Background ''example.com'']"
    by code_simp
  show ?thesis
    using h2 ev
      fallback_without_deadline [OF h1 h2, of "\<lambda>k. cdnProviders" "[]" False, THEN conjunct1]
    by simp
qed

subsection \<open>Exactly one outcome per request\<close>

text \<open>Invariants of the reachable states of the pipeline.\<close>

lemma sum_list_workers_update:
  fixes f :: "'a \<Rightarrow> 'b::comm_monoid_add"
  assumes "i < length ws"
  shows "sum_list (map f (ws[i := w])) + f (ws ! i) = sum_list (map f ws) + f w"
  using assms
proof (induction ws arbitrary: i)
  case Nil
  then show ?case by simp
next
  case (Cons x xs)
  show ?case
  proof (cases i)
    case 0
    then show ?thesis by (simp add: ac_simps)
  next
    case (Suc j)
    then have "j < length xs" using Cons.prems by simp
    from Cons.IH [OF this] show ?thesis using Suc by (simp add: ac_simps)
  qed
qed

lemma workers_update_holds:
  assumes "i < length ws" and "workerHolds (ws ! i) = a"
  shows "sum_list (map workerHolds (ws[i := w])) + a = sum_list (map workerHolds ws) + workerHolds w"
  using sum_list_workers_update [OF assms(1), of workerHolds w] assms(2) by simp

lemma workers_all_returned_hold_nothing:
  "\<forall>w\<in>set ws. w = WorkerReturned \<Longrightarrow> sum_list (map workerHolds ws) = {#}"
  by (induction ws) simp_all

lemma malformed_print_same:
  "readRecord l = ToOutput r \<Longrightarrow> printMalformed (DNSResult.line r) = printResult r"
  by (auto simp: readRecord_def Let_def printMalformed_def printResult_def split: if_splits)

lemma reach_workers_length:
  "reachable cfg n input s \<Longrightarrow> length (workers s) = n"
proof (induction rule: reachable.induct)
  case initial
  show ?case by (simp add: start_def)
next
  case (later s s')
  from later.hyps(2) later.IH show ?case
    by cases auto
qed

lemma reach_input_closed:
  "reachable cfg n input s \<Longrightarrow> inputClosed s = (reader s = ReaderReturned)"
proof (induction rule: reachable.induct)
  case initial
  show ?case by (simp add: start_def)
next
  case (later s s')
  from later.hyps(2) later.IH show ?case
    by cases auto
qed

lemma reach_output_closed:
  "reachable cfg n input s \<Longrightarrow> outputClosed s = (mainPC s \<noteq> Waiting)"
proof (induction rule: reachable.induct)
  case initial
  show ?case by (simp add: start_def)
next
  case (later s s')
  from later.hyps(2) later.IH show ?case
    by cases (auto simp: running_def)
qed

lemma reach_worker_returned:
  "reachable cfg n input s \<Longrightarrow> WorkerReturned \<in> set (workers s) \<Longrightarrow>
     inputClosed s \<and> inputChan s = []"
proof (induction rule: reachable.induct)
  case initial
  then show ?case by (simp add: start_def)
next
  case (later s s')
  have ic: "inputClosed s = (reader s = ReaderReturned)"
    by (rule reach_input_closed [OF later.hyps(1)])
  from later.hyps(2) later.IH later.prems ic show ?case
  proof cases
    case (worker_receive i q qs order r sched)
    then show ?thesis using later.IH later.prems
      by (auto simp: set_conv_nth nth_list_update split: if_splits)
  next
    case (worker_queued i r)
    then show ?thesis using later.IH later.prems
      by (auto simp: set_conv_nth nth_list_update split: if_splits)
  next
    case (worker_printed i r)
    then show ?thesis using later.IH later.prems
      by (auto simp: set_conv_nth nth_list_update split: if_splits)
  next
    case (worker_return i)
    then show ?thesis by simp
  qed auto
qed

lemma reach_closed_workers:
  "reachable cfg n input s \<Longrightarrow> mainPC s \<noteq> Waiting \<Longrightarrow> \<forall>w\<in>set (workers s). w = WorkerReturned"
proof (induction rule: reachable.induct)
  case initial
  then show ?case by (simp add: start_def)
next
  case (later s s')
  from later.hyps(2) show ?case
  proof cases
    case (worker_receive i q qs order r sched)
    then show ?thesis using later.IH later.prems by (auto simp: set_conv_nth)
  next
    case (worker_queued i r)
    then show ?thesis using later.IH later.prems by (auto simp: set_conv_nth)
  next
    case (worker_printed i r)
    then show ?thesis using later.IH later.prems by (auto simp: set_conv_nth)
  next
    case (worker_return i)
    then show ?thesis using later.IH later.prems
      by (auto simp: set_conv_nth nth_list_update split: if_splits)
  qed (use later.IH later.prems in auto)
qed

lemma reach_no_panic:
  assumes "reachable cfg n input s" and "0 < n"
  shows "\<not> panicked s"
  using assms(1)
proof (induction rule: reachable.induct)
  case initial
  show ?case by (simp add: start_def)
next
  case (later s s')
  have len: "length (workers s) = n"
    by (rule reach_workers_length [OF later.hyps(1)])
  have oc: "outputClosed s = (mainPC s \<noteq> Waiting)"
    by (rule reach_output_closed [OF later.hyps(1)])
  have ic: "inputClosed s = (reader s = ReaderReturned)"
    by (rule reach_input_closed [OF later.hyps(1)])
  have closed: "\<forall>w\<in>set (workers s). w = WorkerReturned" if "outputClosed s"
    using reach_closed_workers [OF later.hyps(1)] that oc by simp
  have gone: "reader s = ReaderReturned" if "outputClosed s"
  proof -
    from len assms(2) have "workers s \<noteq> []" by auto
    then have "hd (workers s) \<in> set (workers s)" by simp
    with closed [OF that] have "WorkerReturned \<in> set (workers s)" by metis
    from reach_worker_returned [OF later.hyps(1) this] ic show ?thesis by simp
  qed
  from later.hyps(2) show ?case
  proof cases
    case (reader_panic r)
    then show ?thesis using gone by auto
  next
    case (worker_panic i r)
    have "workers s ! i \<in> set (workers s)"
      using worker_panic(3) by (rule nth_mem)
    then show ?thesis using worker_panic closed by auto
  qed (use later.IH in auto)
qed

lemma reach_sink_done:
  "reachable cfg n input s \<Longrightarrow> sinkPC s = SinkDone \<Longrightarrow> outputClosed s \<and> outputChan s = []"
proof (induction rule: reachable.induct)
  case initial
  then show ?case by (simp add: start_def)
next
  case (later s s')
  from later.hyps(2) later.IH later.prems show ?case
    by cases auto
qed

lemma reach_exited:
  "reachable cfg n input s \<Longrightarrow> mainPC s = Exited \<Longrightarrow> sinkPC s = SinkDone"
proof (induction rule: reachable.induct)
  case initial
  then show ?case by (simp add: start_def)
next
  case (later s s')
  from later.hyps(2) later.IH later.prems show ?case
    by cases (auto simp: running_def)
qed

lemma reach_requests:
  "reachable cfg n input s \<Longrightarrow>
     mset (accepted s) = inFlightRequests s + mset (map fst (produced s))"
proof (induction rule: reachable.induct)
  case initial
  show ?case by (simp add: start_def inFlightRequests_def)
next
  case (later s s')
  from later.hyps(2) later.IH show ?case
    by cases (auto simp: inFlightRequests_def)
qed

lemma idle_workers_hold_nothing:
  "sum_list (replicate n ({#} :: DNSResult multiset)) = {#}"
  by (induction n) simp_all

lemma reach_results:
  "reachable cfg n input s \<Longrightarrow>
     mset (map snd (produced s)) + mset (malformed s) = inFlightResults s + mset (handled s)"
proof (induction rule: reachable.induct)
  case initial
  show ?case by (simp add: start_def inFlightResults_def idle_workers_hold_nothing)
next
  case (later s s')
  from later.hyps(2) show ?case
  proof cases
    case (worker_receive i q qs order r sched)
    have "sum_list (map workerHolds ((workers s)[i := Offering r])) + {#} =
            sum_list (map workerHolds (workers s)) + workerHolds (Offering r)"
      using worker_receive by (intro workers_update_holds) simp_all
    then show ?thesis using worker_receive later.IH
      by (simp add: inFlightResults_def)
  next
    case (worker_queued i r)
    have "sum_list (map workerHolds ((workers s)[i := Receiving])) + {#r#} =
            sum_list (map workerHolds (workers s)) + workerHolds Receiving"
      using worker_queued by (intro workers_update_holds) simp_all
    then show ?thesis using worker_queued later.IH
      by (simp add: inFlightResults_def)
  next
    case (worker_printed i r)
    have "sum_list (map workerHolds ((workers s)[i := Receiving])) + {#r#} =
            sum_list (map workerHolds (workers s)) + workerHolds Receiving"
      using worker_printed by (intro workers_update_holds) simp_all
    then show ?thesis using worker_printed later.IH
      by (simp add: inFlightResults_def)
  next
    case (worker_return i)
    have "sum_list (map workerHolds ((workers s)[i := WorkerReturned])) + {#} =
            sum_list (map workerHolds (workers s)) + workerHolds WorkerReturned"
      using worker_return by (intro workers_update_holds) simp_all
    then show ?thesis using worker_return later.IH
      by (simp add: inFlightResults_def)
  qed (use later.IH in \<open>auto simp: inFlightResults_def\<close>)
qed

lemma reach_stdout:
  "reachable cfg n input s \<Longrightarrow>
     stdout s = concat (map printResult (handled s)) \<and>
     (\<forall>r. reader s = OfferMalformed r \<longrightarrow> printMalformed (DNSResult.line r) = printResult r)"
proof (induction rule: reachable.induct)
  case initial
  show ?case by (simp add: start_def)
next
  case (later s s')
  from later.hyps(2) later.IH show ?case
    by cases (auto simp: malformed_print_same)
qed

lemma workers_update_cost:
  assumes "i < length ws"
  shows "sum_list (map workerCost (ws[i := w])) + workerCost (ws ! i) =
           sum_list (map workerCost ws) + workerCost w"
  by (rule sum_list_workers_update [OF assms])

lemma step_decreases:
  assumes "step cfg s s'"
  shows "potential s' < potential s"
  using assms
proof cases
  case (worker_receive i q qs order r sched)
  from workers_update_cost [OF worker_receive(3), of "Offering r"] worker_receive show ?thesis
    by (simp add: potential_def running_def)
next
  case (worker_queued i r)
  from workers_update_cost [OF worker_queued(3), of Receiving] worker_queued show ?thesis
    by (simp add: potential_def running_def)
next
  case (worker_printed i r)
  from workers_update_cost [OF worker_printed(3), of Receiving] worker_printed show ?thesis
    by (simp add: potential_def running_def)
next
  case (worker_return i)
  from workers_update_cost [OF worker_return(3), of WorkerReturned] worker_return show ?thesis
    by (simp add: potential_def running_def)
qed (auto simp: potential_def running_def)

lemma step_exists:
  assumes "reachable cfg n input s" and "running s"
  shows "\<exists>s'. step cfg s s'"
proof (cases "reader s")
  case Scanning
  show ?thesis
  proof (cases "stdin s")
    case Nil
    from step.scan_end [OF assms(2) Scanning] show ?thesis by blast
  next
    case (Cons l ls)
    show ?thesis
    proof (cases "readRecord l")
      case Skipped
      from step.scan_blank [OF assms(2) Scanning Cons Skipped] show ?thesis by blast
    next
      case (ToOutput r)
      from step.scan_malformed [OF assms(2) Scanning Cons ToOutput] show ?thesis by blast
    next
      case (ToWorkers q)
      from step.scan_request [OF assms(2) Scanning Cons ToWorkers] show ?thesis by blast
    qed
  qed
next
  case (OfferRequest q)
  from step.request_inline [OF assms(2) this rangeOver_source_order refl] show ?thesis by blast
next
  case (OfferInline r)
  from step.inline_printed [OF assms(2) this] show ?thesis by blast
next
  case (OfferMalformed r)
  from step.malformed_printed [OF assms(2) this] show ?thesis by blast
next
  case ReaderReturned
  then have ic: "inputClosed s"
    using reach_input_closed [OF assms(1)] by simp
  show ?thesis
  proof (cases "\<forall>w\<in>set (workers s). w = WorkerReturned")
    case False
    then obtain i where i: "i < length (workers s)" "workers s ! i \<noteq> WorkerReturned"
      by (auto simp: set_conv_nth)
    show ?thesis
    proof (cases "workers s ! i")
      case Receiving
      show ?thesis
      proof (cases "inputChan s")
        case Nil
        from step.worker_return [OF assms(2) i(1) Receiving Nil ic] show ?thesis by blast
      next
        case (Cons q qs)
        from step.worker_receive [OF assms(2) i(1) Receiving Cons rangeOver_source_order refl]
        show ?thesis by blast
      qed
    next
      case (Offering r)
      from step.worker_printed [OF assms(2) i(1) Offering] show ?thesis by blast
    next
      case WorkerReturned
      then show ?thesis using i(2) by simp
    qed
  next
    case True
    show ?thesis
    proof (cases "mainPC s")
      case Waiting
      from step.main_close [OF assms(2) Waiting True] show ?thesis by blast
    next
      case Closing
      then have oc: "outputClosed s"
        using reach_output_closed [OF assms(1)] by simp
      show ?thesis
      proof (cases "sinkPC s")
        case Draining
        show ?thesis
        proof (cases "outputChan s")
          case Nil
          from step.sink_done [OF assms(2) Draining Nil oc] show ?thesis by blast
        next
          case (Cons r rs)
          from step.sink_receive [OF assms(2) Draining Cons] show ?thesis by blast
        qed
      next
        case SinkDone
        from step.main_exit [OF assms(2) Closing SinkDone] show ?thesis by blast
      qed
    next
      case Exited
      then show ?thesis using assms(2) by (simp add: running_def)
    qed
  qed
qed

lemma exit_nothing_in_flight:
  assumes "reachable cfg n input s" and "0 < n" and "mainPC s = Exited"
  shows "inFlightRequests s = {#} \<and> inFlightResults s = {#}"
proof -
  have sd: "outputClosed s \<and> outputChan s = []"
    by (rule reach_sink_done [OF assms(1) reach_exited [OF assms(1,3)]])
  have ws: "\<forall>w\<in>set (workers s). w = WorkerReturned"
    using reach_closed_workers [OF assms(1)] assms(3) by simp
  have "workers s \<noteq> []"
    using reach_workers_length [OF assms(1)] assms(2) by auto
  then have "hd (workers s) \<in> set (workers s)"
    by simp
  with ws have "WorkerReturned \<in> set (workers s)"
    by metis
  from reach_worker_returned [OF assms(1) this] have ic: "inputClosed s" "inputChan s = []"
    by simp_all
  have rd: "reader s = ReaderReturned"
    using ic(1) reach_input_closed [OF assms(1)] by simp
  show ?thesis
    using sd ic(2) rd workers_all_returned_hold_nothing [OF ws]
    by (simp add: inFlightRequests_def inFlightResults_def)
qed

lemma example_record:
  "readRecord ''1.2.3.4:443 [example.com]'' = ToWorkers exampleRequest"
  by code_simp

lemma example_printed:
  "printResult exampleResult =
     [''1.2.3.4:443 [example.com] CDN_MISMATCH_AKAMAI 8.8.8.8,23.32.0.1[a23-32-0-1.deploy.static.akamaitechnologies.com]'' @ [CHR 0x0A]]"
  by code_simp

text \<open>
  Claim C6 says that every accepted request yields exactly one outcome, emitted or
  suppressed exactly once. The size of the worker pool is a flag (\<open>-workers\<close>), and the
  program accepts 0: then \<open>wg.Wait\<close> returns at once, \<open>main\<close> closes \<open>outputChan\<close>
  and returns as soon as the output goroutine is done, and a request the reader has put
  into \<open>inputChan\<close> in the meantime (the default capacity is 1000) is never resolved.
  \<open>lostRun\<close> is the final state of such a run: one request accepted, no outcome.
\<close>

theorem no_workers_counterexample:
  "reachable exampleConfig 0 [''1.2.3.4:443 [example.com]''] lostRun \<and>
   mainPC lostRun = Exited \<and>
   accepted lostRun = [exampleRequest] \<and>
   produced lostRun = [] \<and>
   handled lostRun = []"
proof -
  let ?C = exampleConfig
  let ?inp = "[''1.2.3.4:443 [example.com]'']"
  let ?s0 = "start 0 ?inp"
  let ?s1 = "?s0\<lparr>stdin := [], reader := OfferRequest exampleRequest,
                  accepted := accepted ?s0 @ [exampleRequest]\<rparr>"
  let ?s2 = "?s1\<lparr>reader := Scanning, inputChan := inputChan ?s1 @ [exampleRequest]\<rparr>"
  let ?s3 = "?s2\<lparr>mainPC := Closing, outputClosed := True\<rparr>"
  let ?s4 = "?s3\<lparr>sinkPC := SinkDone\<rparr>"
  let ?s5 = "?s4\<lparr>mainPC := Exited\<rparr>"
  have r0: "reachable ?C 0 ?inp ?s0"
    by (rule reachable.initial)
  have "step ?C ?s0 ?s1"
    by (rule step.scan_request [where l = "''1.2.3.4:443 [example.com]''"])
       (simp_all add: start_def running_def example_record)
  from reachable.later [OF r0 this] have r1: "reachable ?C 0 ?inp ?s1" .
  have "step ?C ?s1 ?s2"
    by (rule step.request_queued) (simp_all add: start_def running_def)
  from reachable.later [OF r1 this] have r2: "reachable ?C 0 ?inp ?s2" .
  have "step ?C ?s2 ?s3"
    by (rule step.main_close) (simp_all add: start_def running_def)
  from reachable.later [OF r2 this] have r3: "reachable ?C 0 ?inp ?s3" .
  have "step ?C ?s3 ?s4"
    by (rule step.sink_done) (simp_all add: start_def running_def)
  from reachable.later [OF r3 this] have r4: "reachable ?C 0 ?inp ?s4" .
  have "step ?C ?s4 ?s5"
    by (rule step.main_exit) (simp_all add: start_def running_def)
  from reachable.later [OF r4 this] have r5: "reachable ?C 0 ?inp ?s5" .
  have "?s5 = lostRun"
    by (simp add: start_def lostRun_def)
  then show ?thesis
    using r5 by (simp add: lostRun_def)
qed

text \<open>
  Claim C6, amended. With a worker pool of at least one worker, in every state the
  pipeline can reach: no send on a closed channel has happened; every resolved request
  is an accepted one and every result handled (printed or suppressed) is the result of a
  resolved request or of a malformed line, counted with multiplicity, so nothing is
  resolved or handled twice; the text printed is exactly what \<open>printResult\<close> gives for
  the handled results, in the order they were handled; when \<open>main\<close> has returned,
  every accepted request has been resolved once, the number of outcomes is the number of
  accepted requests, and every outcome has been handled once, on one of the three paths.
  Until then a step is always possible, and every step lowers \<open>potential\<close>, so every run
  ends with the return of \<open>main\<close>.
\<close>

theorem pipeline_exactly_once:
  assumes "reachable cfg n input s" and "0 < n"
  shows "\<not> panicked s \<and>
         mset (map fst (produced s)) \<subseteq># mset (accepted s) \<and>
         mset (handled s) \<subseteq># mset (map snd (produced s)) + mset (malformed s) \<and>
         stdout s = concat (map printResult (handled s)) \<and>
         (mainPC s = Exited \<longrightarrow>
            mset (map fst (produced s)) = mset (accepted s) \<and>
            length (produced s) = length (accepted s) \<and>
            mset (handled s) = mset (map snd (produced s)) + mset (malformed s)) \<and>
         (mainPC s \<noteq> Exited \<longrightarrow> (\<exists>s'. step cfg s s')) \<and>
         (\<forall>s'. step cfg s s' \<longrightarrow> potential s' < potential s)"
proof -
  have np: "\<not> panicked s"
    by (rule reach_no_panic [OF assms])
  have rq: "mset (accepted s) = inFlightRequests s + mset (map fst (produced s))"
    by (rule reach_requests [OF assms(1)])
  have rs: "mset (map snd (produced s)) + mset (malformed s) = inFlightResults s + mset (handled s)"
    by (rule reach_results [OF assms(1)])
  have c2: "mset (map fst (produced s)) \<subseteq># mset (accepted s)"
    unfolding rq by simp
  have c3: "mset (handled s) \<subseteq># mset (map snd (produced s)) + mset (malformed s)"
    unfolding rs by simp
  have c4: "stdout s = concat (map printResult (handled s))"
    using reach_stdout [OF assms(1)] by simp
  have c5: "mset (map fst (produced s)) = mset (accepted s) \<and>
            length (produced s) = length (accepted s) \<and>
            mset (handled s) = mset (map snd (produced s)) + mset (malformed s)"
    if "mainPC s = Exited"
  proof -
    from exit_nothing_in_flight [OF assms that] have
      e: "inFlightRequests s = {#}" "inFlightResults s = {#}"
      by simp_all
    have a: "mset (map fst (produced s)) = mset (accepted s)"
      using rq e(1) by simp
    have "size (mset (map fst (produced s))) = size (mset (accepted s))"
      using a by simp
    then have b: "length (produced s) = length (accepted s)"
      by simp
    have c: "mset (handled s) = mset (map snd (produced s)) + mset (malformed s)"
      using rs e(2) by simp
    show ?thesis using a b c by simp
  qed
  have c6: "\<exists>s'. step cfg s s'" if "mainPC s \<noteq> Exited"
    using step_exists [OF assms(1)] that np by (simp add: running_def)
  have c7: "\<forall>s'. step cfg s s' \<longrightarrow> potential s' < potential s"
    using step_decreases by blast
  show ?thesis
    using np c2 c3 c4 c5 c6 c7 by (intro conjI impI) simp_all
qed

text \<open>The theorem at \<open>doneRun\<close>, the final state of a run with one worker that queues the
  request, resolves it to \<open>CDN_MISMATCH_AKAMAI\<close> and prints it through the output
  goroutine.\<close>

lemma doneRun_reachable:
  "reachable exampleConfig (Suc 0) [''1.2.3.4:443 [example.com]''] doneRun"
proof -
  let ?C = exampleConfig
  let ?inp = "[''1.2.3.4:443 [example.com]'']"
  let ?s0 = "start (Suc 0) ?inp"
  let ?s1 = "?s0\<lparr>stdin := [], reader := OfferRequest exampleRequest,
                  accepted := accepted ?s0 @ [exampleRequest]\<rparr>"
  let ?s2 = "?s1\<lparr>reader := Scanning, inputChan := inputChan ?s1 @ [exampleRequest]\<rparr>"
  let ?s3 = "?s2\<lparr>reader := ReaderReturned, inputClosed := True\<rparr>"
  let ?s4 = "?s3\<lparr>inputChan := [], workers := (workers ?s3)[0 := Offering exampleResult],
                  produced := produced ?s3 @ [(exampleRequest, exampleResult)]\<rparr>"
  let ?s5 = "?s4\<lparr>workers := (workers ?s4)[0 := Receiving],
                  outputChan := outputChan ?s4 @ [exampleResult]\<rparr>"
  let ?s6 = "?s5\<lparr>workers := (workers ?s5)[0 := WorkerReturned]\<rparr>"
  let ?s7 = "?s6\<lparr>outputChan := [], stdout := stdout ?s6 @ printResult exampleResult,
                  handled := handled ?s6 @ [exampleResult]\<rparr>"
  let ?s8 = "?s7\<lparr>mainPC := Closing, outputClosed := True\<rparr>"
  let ?s9 = "?s8\<lparr>sinkPC := SinkDone\<rparr>"
  let ?s10 = "?s9\<lparr>mainPC := Exited\<rparr>"
  have r0: "reachable ?C (Suc 0) ?inp ?s0"
    by (rule reachable.initial)
  have "step ?C ?s0 ?s1"
    by (rule step.scan_request [where l = "''1.2.3.4:443 [example.com]''"])
       (simp_all add: start_def running_def example_record)
  from reachable.later [OF r0 this] have r1: "reachable ?C (Suc 0) ?inp ?s1" .
  have "step ?C ?s1 ?s2"
    by (rule step.request_queued) (simp_all add: start_def running_def)
  from reachable.later [OF r1 this] have r2: "reachable ?C (Suc 0) ?inp ?s2" .
  have "step ?C ?s2 ?s3"
    by (rule step.scan_end) (simp_all add: start_def running_def)
  from reachable.later [OF r2 this] have r3: "reachable ?C (Suc 0) ?inp ?s3" .
  have "step ?C ?s3 ?s4"
    by (rule step.worker_receive [where q = exampleRequest and order = "\<lambda>k. cdnProviders"
          and sched = "[Received 1, Received 0]"])
       (simp_all add: start_def running_def rangeOver_source_order exampleResult_def)
  from reachable.later [OF r3 this] have r4: "reachable ?C (Suc 0) ?inp ?s4" .
  have "step ?C ?s4 ?s5"
    by (rule step.worker_queued) (simp_all add: start_def running_def)
  from reachable.later [OF r4 this] have r5: "reachable ?C (Suc 0) ?inp ?s5" .
  have "step ?C ?s5 ?s6"
    by (rule step.worker_return) (simp_all add: start_def running_def)
  from reachable.later [OF r5 this] have r6: "reachable ?C (Suc 0) ?inp ?s6" .
  have "step ?C ?s6 ?s7"
    by (rule step.sink_receive) (simp_all add: start_def running_def)
  from reachable.later [OF r6 this] have r7: "reachable ?C (Suc 0) ?inp ?s7" .
  have "step ?C ?s7 ?s8"
    by (rule step.main_close) (simp_all add: start_def running_def)
  from reachable.later [OF r7 this] have r8: "reachable ?C (Suc 0) ?inp ?s8" .
  have "step ?C ?s8 ?s9"
    by (rule step.sink_done) (simp_all add: start_def running_def)
  from reachable.later [OF r8 this] have r9: "reachable ?C (Suc 0) ?inp ?s9" .
  have "step ?C ?s9 ?s10"
    by (rule step.main_exit) (simp_all add: start_def running_def)
  from reachable.later [OF r9 this] have r10: "reachable ?C (Suc 0) ?inp ?s10" .
  have "?s10 = doneRun"
    by (simp add: start_def doneRun_def)
  then show ?thesis
    using r10 by simp
qed

theorem pipeline_exactly_once_witness:
  "reachable exampleConfig (Suc 0) [''1.2.3.4:443 [example.com]''] doneRun \<and>
   0 < Suc 0 \<and>
   mainPC doneRun = Exited \<and>
   \<not> panicked doneRun \<and>
   mset (map fst (produced doneRun)) = mset (accepted doneRun) \<and>
   length (produced doneRun) = length (accepted doneRun) \<and>
   mset (handled doneRun) = mset (map snd (produced doneRun)) + mset (malformed doneRun) \<and>
   stdout doneRun =
     [''1.2.3.4:443 [example.com] CDN_MISMATCH_AKAMAI 8.8.8.8,23.32.0.1[a23-32-0-1.deploy.static.akamaitechnologies.com]'' @ [CHR 0x0A]]"
proof -
  have h2: "0 < Suc 0"
    by simp
  have ex: "mainPC doneRun = Exited"
    by (simp add: doneRun_def)
  have out: "stdout doneRun = printResult exampleResult"
    by (simp add: doneRun_def)
  show ?thesis
    using doneRun_reachable h2 ex pipeline_exactly_once [OF doneRun_reachable h2]
    by (simp add: out example_printed)
qed

subsection \<open>Malformed and blank records\<close>

text \<open>What the reader builds from one line, and from the lines it has read so far.\<close>

lemma blank_skipped:
  "TrimSpace l = [] \<Longrightarrow> readRecord l = Skipped"
  by (simp add: readRecord_def)

lemma malformed_routed:
  "TrimSpace l \<noteq> [] \<Longrightarrow> length (FindStringSubmatch (TrimSpace l)) \<noteq> 4 \<Longrightarrow>
     readRecord l = ToOutput (malformedResult (TrimSpace l))"
  by (simp add: readRecord_def Let_def malformedResult_def)

lemma readRecord_ToOutput:
  "readRecord l = ToOutput r \<Longrightarrow>
     r = malformedResult (TrimSpace l) \<and> TrimSpace l \<noteq> [] \<and>
     length (FindStringSubmatch (TrimSpace l)) \<noteq> 4"
  by (auto simp: readRecord_def Let_def malformedResult_def split: if_splits)

lemma printResult_malformed:
  "printResult (malformedResult ln) = [ln @ '' MALFORMED'' @ [CHR 0x0A]]"
  by (simp add: printResult_def malformedResult_def)

lemma malformedOf_snoc:
  "malformedOf (ls @ [l]) =
     malformedOf ls @ (case readRecord l of ToOutput r \<Rightarrow> [r] | _ \<Rightarrow> [])"
  by (simp add: malformedOf_def List.map_filter_def recordResult_def split: Routed.splits)

lemma acceptedOf_snoc:
  "acceptedOf (ls @ [l]) =
     acceptedOf ls @ (case readRecord l of ToWorkers q \<Rightarrow> [q] | _ \<Rightarrow> [])"
  by (simp add: acceptedOf_def List.map_filter_def recordRequest_def split: Routed.splits)

lemma malformedOf_member:
  assumes "r \<in> set (malformedOf ls)"
  shows "\<exists>l\<in>set ls. TrimSpace l \<noteq> [] \<and> length (FindStringSubmatch (TrimSpace l)) \<noteq> 4 \<and>
           r = malformedResult (TrimSpace l)"
proof -
  from assms obtain l where l: "l \<in> set ls" "recordResult l = Some r"
    by (auto simp: malformedOf_def List.map_filter_def)
  then have "readRecord l = ToOutput r"
    by (auto simp: recordResult_def split: Routed.splits)
  from readRecord_ToOutput [OF this] l(1) show ?thesis by blast
qed

lemma acceptedOf_member:
  assumes "q \<in> set (acceptedOf ls)"
  shows "length (FindStringSubmatch (DNSRequest.line q)) = 4"
proof -
  from assms obtain l where l: "l \<in> set ls" "recordRequest l = Some q"
    by (auto simp: acceptedOf_def List.map_filter_def)
  then have "readRecord l = ToWorkers q"
    by (auto simp: recordRequest_def split: Routed.splits)
  then show ?thesis
    by (auto simp: readRecord_def Let_def split: if_splits)
qed

lemma drop_head:
  assumes "drop k xs = l # ls"
  shows "k < length xs \<and> take (Suc k) xs = take k xs @ [l] \<and> drop (Suc k) xs = ls"
proof -
  have k: "k < length xs"
    using assms by (cases "k < length xs") auto
  have "xs ! k = l"
    using assms k by (metis nth_via_drop)
  then have "take (Suc k) xs = take k xs @ [l]"
    using k by (simp add: take_Suc_conv_app_nth)
  moreover have "drop (Suc k) xs = ls"
    using assms by (metis drop_Suc list.sel(3) tl_drop)
  ultimately show ?thesis using k by simp
qed

lemma reach_consumed:
  "reachable cfg n input s \<Longrightarrow>
     \<exists>k\<le>length input. stdin s = drop k input \<and>
        malformed s = malformedOf (take k input) \<and> accepted s = acceptedOf (take k input)"
proof (induction rule: reachable.induct)
  case initial
  have "stdin (start n input) = drop 0 input \<and>
        malformed (start n input) = malformedOf (take 0 input) \<and>
        accepted (start n input) = acceptedOf (take 0 input)"
    by (simp add: start_def malformedOf_def acceptedOf_def List.map_filter_def)
  then show ?case by blast
next
  case (later s s')
  from later.IH obtain k where k: "k \<le> length input" "stdin s = drop k input"
      "malformed s = malformedOf (take k input)" "accepted s = acceptedOf (take k input)"
    by blast
  have keep: ?case if "stdin s' = stdin s" "malformed s' = malformed s" "accepted s' = accepted s"
    using k that by auto
  have scan: ?case
    if "stdin s = l # ls" "stdin s' = ls"
       "malformed s' = malformed s @ (case readRecord l of ToOutput r \<Rightarrow> [r] | _ \<Rightarrow> [])"
       "accepted s' = accepted s @ (case readRecord l of ToWorkers q \<Rightarrow> [q] | _ \<Rightarrow> [])"
    for l ls
  proof -
    from that(1) k(2) have "drop k input = l # ls" by simp
    from drop_head [OF this] have d: "k < length input"
        "take (Suc k) input = take k input @ [l]" "drop (Suc k) input = ls"
      by simp_all
    have "Suc k \<le> length input \<and> stdin s' = drop (Suc k) input \<and>
          malformed s' = malformedOf (take (Suc k) input) \<and>
          accepted s' = acceptedOf (take (Suc k) input)"
      using d that k(3,4) by (simp add: malformedOf_snoc acceptedOf_snoc)
    then show ?thesis by blast
  qed
  from later.hyps(2) show ?case
  proof cases
    case (scan_blank l ls)
    show ?thesis
      by (rule scan [of l ls]) (use scan_blank in simp_all)
  next
    case (scan_malformed l ls r)
    show ?thesis
      by (rule scan [of l ls]) (use scan_malformed in simp_all)
  next
    case (scan_request l ls q)
    show ?thesis
      by (rule scan [of l ls]) (use scan_request in simp_all)
  qed (rule keep; simp)+
qed

lemma process_not_malformed:
  "status (process cfg order sched q) \<noteq> ''MALFORMED''"
  by (auto simp: process_def processDNSRequest_def Let_def mismatchStatus_def
           split: prod.splits if_splits)

lemma reach_produced_status:
  "reachable cfg n input s \<Longrightarrow> \<forall>p\<in>set (produced s). status (snd p) \<noteq> ''MALFORMED''"
proof (induction rule: reachable.induct)
  case initial
  show ?case by (simp add: start_def)
next
  case (later s s')
  from later.hyps(2) later.IH show ?case
    by cases (auto simp: process_not_malformed)
qed

lemma garbage_record:
  "readRecord ''garbage text'' = ToOutput (malformedResult ''garbage text'')"
proof -
  have t: "TrimSpace ''garbage text'' = ''garbage text''"
    by code_simp
  have h1: "TrimSpace ''garbage text'' \<noteq> []"
    by (simp add: t)
  have h2: "length (FindStringSubmatch (TrimSpace ''garbage text'')) \<noteq> 4"
    unfolding t by code_simp
  show ?thesis
    using malformed_routed [OF h1 h2] by (simp add: t)
qed

text \<open>
  Claim C5 says that every record failing the line format, blank records included, is
  routed into the result path as a \<open>MALFORMED\<close> result that is printed. A blank record
  is not: the reader skips a line that is empty after trimming (\<open>// Skip empty lines\<close>)
  before it tries the pattern, and nothing is produced for it. And a record that is not
  blank is printed only when the worker pool is not empty: with \<open>-workers 0\<close>,
  \<open>wg.Wait\<close> returns at once, \<open>main\<close> closes \<open>outputChan\<close> and returns, and the
  result the reader has built for the line \<open>garbage text\<close> is never printed.
  \<open>garbageLost\<close> is the final state of such a run.
\<close>

theorem blank_record_counterexample:
  "readRecord ''   '' = Skipped \<and>
   reachable exampleConfig 0 [''garbage text''] garbageLost \<and>
   mainPC garbageLost = Exited \<and>
   malformed garbageLost = [malformedResult ''garbage text''] \<and>
   handled garbageLost = [] \<and>
   stdout garbageLost = []"
proof -
  let ?C = exampleConfig
  let ?inp = "[''garbage text'']"
  let ?r = "malformedResult ''garbage text''"
  let ?s0 = "start 0 ?inp"
  let ?s1 = "?s0\<lparr>stdin := [], reader := OfferMalformed ?r, malformed := malformed ?s0 @ [?r]\<rparr>"
  let ?s2 = "?s1\<lparr>mainPC := Closing, outputClosed := True\<rparr>"
  let ?s3 = "?s2\<lparr>sinkPC := SinkDone\<rparr>"
  let ?s4 = "?s3\<lparr>mainPC := Exited\<rparr>"
  have b: "readRecord ''   '' = Skipped"
    by code_simp
  have r0: "reachable ?C 0 ?inp ?s0"
    by (rule reachable.initial)
  have "step ?C ?s0 ?s1"
    by (rule step.scan_malformed [where l = "''garbage text''"])
       (simp_all add: start_def running_def garbage_record)
  from reachable.later [OF r0 this] have r1: "reachable ?C 0 ?inp ?s1" .
  have "step ?C ?s1 ?s2"
    by (rule step.main_close) (simp_all add: start_def running_def)
  from reachable.later [OF r1 this] have r2: "reachable ?C 0 ?inp ?s2" .
  have "step ?C ?s2 ?s3"
    by (rule step.sink_done) (simp_all add: start_def running_def)
  from reachable.later [OF r2 this] have r3: "reachable ?C 0 ?inp ?s3" .
  have "step ?C ?s3 ?s4"
    by (rule step.main_exit) (simp_all add: start_def running_def)
  from reachable.later [OF r3 this] have r4: "reachable ?C 0 ?inp ?s4" .
  have "?s4 = garbageLost"
    by (simp add: start_def garbageLost_def)
  then show ?thesis
    using r4 b by (simp add: garbageLost_def)
qed

text \<open>
  Claim C5, amended. A blank record is skipped and yields no result. Every record that
  is not blank after trimming and fails the line format becomes the result
  \<open>malformedResult\<close> of the trimmed line, with the status \<open>MALFORMED\<close> and
  \<open>shouldPrint\<close> set, for which \<open>printResult\<close> and the reader's own \<open>Printf\<close> print
  the line followed by \<open>MALFORMED\<close>. With a worker pool of at least one worker, in
  every state the pipeline can reach: the \<open>MALFORMED\<close> results and the requests built
  so far are those of the lines read so far (all lines, once the input is used up);
  every request that is queued, held or resolved is an accepted one, and the line of
  every accepted request matches the format, so a record that fails it is never queued
  for resolution; no result of a resolution has the status \<open>MALFORMED\<close>; and when
  \<open>main\<close> has returned, every \<open>MALFORMED\<close> result has been handled as often as it
  was built, once for each record, and its line followed by \<open>MALFORMED\<close> is in the
  text printed.
\<close>

theorem malformed_record_routed:
  assumes "reachable cfg n input s" and "0 < n"
  shows "(\<forall>text. TrimSpace text = [] \<longrightarrow> readRecord text = Skipped) \<and>
         (\<forall>text. TrimSpace text \<noteq> [] \<and> length (FindStringSubmatch (TrimSpace text)) \<noteq> 4 \<longrightarrow>
            readRecord text = ToOutput (malformedResult (TrimSpace text)) \<and>
            printResult (malformedResult (TrimSpace text)) =
              [TrimSpace text @ '' MALFORMED'' @ [CHR 0x0A]] \<and>
            printMalformed (TrimSpace text) = [TrimSpace text @ '' MALFORMED'' @ [CHR 0x0A]]) \<and>
         (\<exists>k\<le>length input. stdin s = drop k input \<and>
            malformed s = malformedOf (take k input) \<and>
            accepted s = acceptedOf (take k input)) \<and>
         (stdin s = [] \<longrightarrow> malformed s = malformedOf input \<and> accepted s = acceptedOf input) \<and>
         mset (accepted s) = inFlightRequests s + mset (map fst (produced s)) \<and>
         (\<forall>q\<in>set (accepted s). length (FindStringSubmatch (DNSRequest.line q)) = 4) \<and>
         (\<forall>p\<in>set (produced s). status (snd p) \<noteq> ''MALFORMED'') \<and>
         (mainPC s = Exited \<longrightarrow>
            stdout s = concat (map printResult (handled s)) \<and>
            (\<forall>r\<in>set (malformed s).
               status r = ''MALFORMED'' \<and> shouldPrint r \<and>
               r \<notin> snd ` set (produced s) \<and>
               count (mset (handled s)) r = count (mset (malformed s)) r \<and>
               DNSResult.line r @ '' MALFORMED'' @ [CHR 0x0A] \<in> set (stdout s)))"
proof -
  have c1: "\<forall>text. TrimSpace text = [] \<longrightarrow> readRecord text = Skipped"
    using blank_skipped by blast
  have c2: "\<forall>text. TrimSpace text \<noteq> [] \<and> length (FindStringSubmatch (TrimSpace text)) \<noteq> 4 \<longrightarrow>
            readRecord text = ToOutput (malformedResult (TrimSpace text)) \<and>
            printResult (malformedResult (TrimSpace text)) =
              [TrimSpace text @ '' MALFORMED'' @ [CHR 0x0A]] \<and>
            printMalformed (TrimSpace text) = [TrimSpace text @ '' MALFORMED'' @ [CHR 0x0A]]"
    using malformed_routed printResult_malformed by (simp add: printMalformed_def)
  from reach_consumed [OF assms(1)] obtain k where k: "k \<le> length input"
      "stdin s = drop k input" "malformed s = malformedOf (take k input)"
      "accepted s = acceptedOf (take k input)"
    by blast
  have c3: "\<exists>k\<le>length input. stdin s = drop k input \<and>
            malformed s = malformedOf (take k input) \<and> accepted s = acceptedOf (take k input)"
    using k by blast
  have c4: "malformed s = malformedOf input \<and> accepted s = acceptedOf input" if "stdin s = []"
  proof -
    from that k(1,2) have "k = length input" by simp
    then show ?thesis using k(3,4) by simp
  qed
  have c5: "mset (accepted s) = inFlightRequests s + mset (map fst (produced s))"
    by (rule reach_requests [OF assms(1)])
  have c5': "\<forall>q\<in>set (accepted s). length (FindStringSubmatch (DNSRequest.line q)) = 4"
    unfolding k(4) by (intro ballI) (rule acceptedOf_member)
  have c6: "\<forall>p\<in>set (produced s). status (snd p) \<noteq> ''MALFORMED''"
    by (rule reach_produced_status [OF assms(1)])
  have c7: "stdout s = concat (map printResult (handled s)) \<and>
            (\<forall>r\<in>set (malformed s).
               status r = ''MALFORMED'' \<and> shouldPrint r \<and>
               r \<notin> snd ` set (produced s) \<and>
               count (mset (handled s)) r = count (mset (malformed s)) r \<and>
               DNSResult.line r @ '' MALFORMED'' @ [CHR 0x0A] \<in> set (stdout s))"
    if ex: "mainPC s = Exited"
  proof (intro conjI ballI)
    show out: "stdout s = concat (map printResult (handled s))"
      using reach_stdout [OF assms(1)] by simp
    fix r assume r: "r \<in> set (malformed s)"
    then have "r \<in> set (malformedOf (take k input))" by (simp add: k(3))
    from malformedOf_member [OF this] obtain l where
      l: "r = malformedResult (TrimSpace l)" by blast
    show st: "status r = ''MALFORMED''" by (simp add: l malformedResult_def)
    show "shouldPrint r" by (simp add: l malformedResult_def)
    show np: "r \<notin> snd ` set (produced s)"
      using c6 st by auto
    have rs: "mset (map snd (produced s)) + mset (malformed s) =
              inFlightResults s + mset (handled s)"
      by (rule reach_results [OF assms(1)])
    from exit_nothing_in_flight [OF assms ex] have "inFlightResults s = {#}" by simp
    then have h: "mset (handled s) = mset (map snd (produced s)) + mset (malformed s)"
      using rs by simp
    have z: "count (image_mset snd (mset (produced s))) r = 0"
      using np by (metis count_eq_zero_iff set_image_mset set_mset_mset)
    show cnt: "count (mset (handled s)) r = count (mset (malformed s)) r"
      by (simp add: h z)
    have "r \<in> set (handled s)"
      using r h by (metis set_mset_mset union_iff)
    then have "set (printResult r) \<subseteq> set (stdout s)"
      unfolding out by auto
    moreover have "printResult r = [DNSResult.line r @ '' MALFORMED'' @ [CHR 0x0A]]"
      by (simp add: l printResult_malformed) (simp add: malformedResult_def)
    ultimately show "DNSResult.line r @ '' MALFORMED'' @ [CHR 0x0A] \<in> set (stdout s)"
      by simp
  qed
  show ?thesis
    using c1 c2 c3 c4 c5 c5' c6 c7 by (intro conjI impI) blast+
qed

text \<open>A run with one worker that ends in \<open>garbageDone\<close>.\<close>

lemma garbageDone_reachable:
  "reachable exampleConfig (Suc 0) [''garbage text''] garbageDone"
proof -
  let ?C = exampleConfig
  let ?inp = "[''garbage text'']"
  let ?r = "malformedResult ''garbage text''"
  let ?s0 = "start (Suc 0) ?inp"
  let ?s1 = "?s0\<lparr>stdin := [], reader := OfferMalformed ?r, malformed := malformed ?s0 @ [?r]\<rparr>"
  let ?s2 = "?s1\<lparr>reader := Scanning, outputChan := outputChan ?s1 @ [?r]\<rparr>"
  let ?s3 = "?s2\<lparr>reader := ReaderReturned, inputClosed := True\<rparr>"
  let ?s4 = "?s3\<lparr>workers := (workers ?s3)[0 := WorkerReturned]\<rparr>"
  let ?s5 = "?s4\<lparr>outputChan := [], stdout := stdout ?s4 @ printResult ?r,
                  handled := handled ?s4 @ [?r]\<rparr>"
  let ?s6 = "?s5\<lparr>mainPC := Closing, outputClosed := True\<rparr>"
  let ?s7 = "?s6\<lparr>sinkPC := SinkDone\<rparr>"
  let ?s8 = "?s7\<lparr>mainPC := Exited\<rparr>"
  have r0: "reachable ?C (Suc 0) ?inp ?s0"
    by (rule reachable.initial)
  have "step ?C ?s0 ?s1"
    by (rule step.scan_malformed [where l = "''garbage text''"])
       (simp_all add: start_def running_def garbage_record)
  from reachable.later [OF r0 this] have r1: "reachable ?C (Suc 0) ?inp ?s1" .
  have "step ?C ?s1 ?s2"
    by (rule step.malformed_queued) (simp_all add: start_def running_def)
  from reachable.later [OF r1 this] have r2: "reachable ?C (Suc 0) ?inp ?s2" .
  have "step ?C ?s2 ?s3"
    by (rule step.scan_end) (simp_all add: start_def running_def)
  from reachable.later [OF r2 this] have r3: "reachable ?C (Suc 0) ?inp ?s3" .
  have "step ?C ?s3 ?s4"
    by (rule step.worker_return) (simp_all add: start_def running_def)
  from reachable.later [OF r3 this] have r4: "reachable ?C (Suc 0) ?inp ?s4" .
  have "step ?C ?s4 ?s5"
    by (rule step.sink_receive) (simp_all add: start_def running_def)
  from reachable.later [OF r4 this] have r5: "reachable ?C (Suc 0) ?inp ?s5" .
  have "step ?C ?s5 ?s6"
    by (rule step.main_close) (simp_all add: start_def running_def)
  from reachable.later [OF r5 this] have r6: "reachable ?C (Suc 0) ?inp ?s6" .
  have "step ?C ?s6 ?s7"
    by (rule step.sink_done) (simp_all add: start_def running_def)
  from reachable.later [OF r6 this] have r7: "reachable ?C (Suc 0) ?inp ?s7" .
  have "step ?C ?s7 ?s8"
    by (rule step.main_exit) (simp_all add: start_def running_def)
  from reachable.later [OF r7 this] have r8: "reachable ?C (Suc 0) ?inp ?s8" .
  have "?s8 = garbageDone"
    by (simp add: start_def garbageDone_def printResult_malformed)
  then show ?thesis
    using r8 by simp
qed

text \<open>The theorem at \<open>garbageDone\<close>, the final state of a run with one worker on the
  input line \<open>garbage text\<close>: the reader queues the result in \<open>outputChan\<close> and the
  output goroutine prints \<open>garbage text MALFORMED\<close>.\<close>

theorem malformed_record_routed_witness:
  "reachable exampleConfig (Suc 0) [''garbage text''] garbageDone \<and>
   0 < Suc 0 \<and>
   TrimSpace ''garbage text'' \<noteq> [] \<and>
   length (FindStringSubmatch (TrimSpace ''garbage text'')) \<noteq> 4 \<and>
   TrimSpace ''   '' = [] \<and>
   stdin garbageDone = [] \<and>
   mainPC garbageDone = Exited \<and>
   malformedResult ''garbage text'' \<in> set (malformed garbageDone) \<and>
   readRecord ''garbage text'' = ToOutput (malformedResult ''garbage text'') \<and>
   malformed garbageDone = malformedOf [''garbage text''] \<and>
   count (mset (handled garbageDone)) (malformedResult ''garbage text'') = 1 \<and>
   ''garbage text MALFORMED'' @ [CHR 0x0A] \<in> set (stdout garbageDone)"
proof -
  have h2: "0 < Suc 0"
    by simp
  have t: "TrimSpace ''garbage text'' = ''garbage text''"
    by code_simp
  have h3: "TrimSpace ''garbage text'' \<noteq> []"
    by (simp add: t)
  have h4: "length (FindStringSubmatch (TrimSpace ''garbage text'')) \<noteq> 4"
    unfolding t by code_simp
  have h5: "TrimSpace ''   '' = []"
    by code_simp
  have si: "stdin garbageDone = []"
    by (simp add: garbageDone_def)
  have ex: "mainPC garbageDone = Exited"
    by (simp add: garbageDone_def)
  have m: "malformed garbageDone = [malformedResult ''garbage text'']"
    by (simp add: garbageDone_def)
  have ln: "DNSResult.line (malformedResult ''garbage text'') = ''garbage text''"
    by (simp add: malformedResult_def)
  have mem: "malformedResult ''garbage text'' \<in> set (malformed garbageDone)"
    by (simp add: m)
  note inst = malformed_record_routed [OF garbageDone_reachable h2]
  have a: "readRecord ''garbage text'' = ToOutput (malformedResult ''garbage text'')"
    using inst h3 h4 by (simp add: t)
  have b: "malformed garbageDone = malformedOf [''garbage text'']"
    using inst si by blast
  have c: "count (mset (handled garbageDone)) (malformedResult ''garbage text'') = 1 \<and>
           ''garbage text MALFORMED'' @ [CHR 0x0A] \<in> set (stdout garbageDone)"
  proof -
    note atExit = inst [THEN conjunct2, THEN conjunct2, THEN conjunct2, THEN conjunct2,
        THEN conjunct2, THEN conjunct2, THEN conjunct2, THEN mp, OF ex]
    from atExit [THEN conjunct2, THEN bspec, OF mem] show ?thesis
      by (simp add: m ln)
  qed
  show ?thesis
    by (intro conjI)
       (rule garbageDone_reachable h2 h3 h4 h5 si ex mem a b c [THEN conjunct1]
             c [THEN conjunct2])+
qed

end
